theory Spec2Isabelle
  imports Complex_Main "HOL-Library.Multiset"
begin

section \<open>Python values, exceptions and built-ins\<close>

text \<open>
  The values that \<^verbatim>\<open>json.loads\<close> produces and that the agents exchange with the
  provider and the tools. A Python \<^verbatim>\<open>dict\<close> keeps its insertion order, so it is an
  association list; a character is a code point (here one below 256).
\<close>

datatype json =
    JNull
  | JBool bool
  | JInt int
  | JFloat real
  | JStr string
  | JArr "json list"
  | JObj "(string \<times> json) list"

text \<open>The exceptions the two modules raise or let through, with the text of \<^verbatim>\<open>str(e)\<close>.\<close>

datatype error =
    Exception string
  | JSONDecodeError string
  | ValueError string
  | TypeError string
  | KeyError string
  | IndexError string
  | RecursionError string
  | TimeoutError

fun str_exc :: "error \<Rightarrow> string" where
  "str_exc (Exception m) = m"
| "str_exc (JSONDecodeError m) = m"
| "str_exc (ValueError m) = m"
| "str_exc (TypeError m) = m"
| "str_exc (KeyError k) = [CHR 0x27] @ k @ [CHR 0x27]"
| "str_exc (IndexError m) = m"
| "str_exc (RecursionError m) = m"
| "str_exc TimeoutError = []"

text \<open>\<^verbatim>\<open>json.JSONDecodeError\<close> is a subclass of \<^verbatim>\<open>ValueError\<close>: what
  \<^verbatim>\<open>except (json.JSONDecodeError, ValueError)\<close> catches.\<close>

fun is_value_error :: "error \<Rightarrow> bool" where
  "is_value_error (JSONDecodeError m) = True"
| "is_value_error (ValueError m) = True"
| "is_value_error e = False"

fun type_name :: "json \<Rightarrow> string" where
  "type_name JNull = ''NoneType''"
| "type_name (JBool b) = ''bool''"
| "type_name (JInt i) = ''int''"
| "type_name (JFloat r) = ''float''"
| "type_name (JStr s) = ''str''"
| "type_name (JArr xs) = ''list''"
| "type_name (JObj kvs) = ''dict''"

text \<open>\<^verbatim>\<open>len(x)\<close>: lists, strings and dicts have a length, the other values raise.\<close>

fun py_len :: "json \<Rightarrow> error + nat" where
  "py_len (JArr xs) = Inr (length xs)"
| "py_len (JStr s) = Inr (length s)"
| "py_len (JObj kvs) = Inr (length kvs)"
| "py_len v = Inl (TypeError (''object of type '' @ [CHR 0x27] @ type_name v @ [CHR 0x27] @ '' has no len()''))"

text \<open>Iterating a value, as \<^verbatim>\<open>zip\<close> does: the elements of a list, the characters of a
  string, the keys of a dict.\<close>

fun py_iter :: "json \<Rightarrow> error + json list" where
  "py_iter (JArr xs) = Inr xs"
| "py_iter (JStr s) = Inr (map (\<lambda>c. JStr [c]) s)"
| "py_iter (JObj kvs) = Inr (map (\<lambda>kv. JStr (fst kv)) kvs)"
| "py_iter v = Inl (TypeError ([CHR 0x27] @ type_name v @ [CHR 0x27] @ '' object is not iterable''))"

text \<open>\<^verbatim>\<open>sep.join(xs)\<close>.\<close>

fun py_join :: "string \<Rightarrow> string list \<Rightarrow> string" where
  "py_join sep [] = []"
| "py_join sep [x] = x"
| "py_join sep (x # y # ys) = x @ sep @ py_join sep (y # ys)"

definition blank_line :: string where
  "blank_line = [CHR 0x0A, CHR 0x0A]"

text \<open>\<^verbatim>\<open>str.strip()\<close>: the white space of \<^verbatim>\<open>str.isspace\<close> among the code points
  below 256.\<close>

definition py_isspace :: "char \<Rightarrow> bool" where
  "py_isspace c =
     (let n = of_char c :: nat
      in (9 \<le> n \<and> n \<le> 13) \<or> (28 \<le> n \<and> n \<le> 32) \<or> n = 133 \<or> n = 160)"

definition py_strip :: "string \<Rightarrow> string" where
  "py_strip s = rev (dropWhile py_isspace (rev (dropWhile py_isspace s)))"

text \<open>\<^verbatim>\<open>str.upper()\<close> and \<^verbatim>\<open>str.lower()\<close> on the ASCII letters. The orchestrator
  upper-cases four fixed ASCII names, and lower-cases the provider name only to compare
  it with \<^verbatim>\<open>'gemini'\<close>.\<close>

definition upper_char :: "char \<Rightarrow> char" where
  "upper_char c =
     (let n = of_char c :: nat in if 97 \<le> n \<and> n \<le> 122 then char_of (n - 32) else c)"

definition lower_char :: "char \<Rightarrow> char" where
  "lower_char c =
     (let n = of_char c :: nat in if 65 \<le> n \<and> n \<le> 90 then char_of (n + 32) else c)"

definition py_upper :: "string \<Rightarrow> string" where
  "py_upper s = map upper_char s"

definition py_lower :: "string \<Rightarrow> string" where
  "py_lower s = map lower_char s"

text \<open>Dicts as association lists with distinct keys: \<^verbatim>\<open>d[k] = v\<close> replaces the value
  in place or appends the new key.\<close>

fun dict_set :: "'k \<Rightarrow> 'v \<Rightarrow> ('k \<times> 'v) list \<Rightarrow> ('k \<times> 'v) list" where
  "dict_set k v [] = [(k, v)]"
| "dict_set k v ((k', v') # d) = (if k' = k then (k, v) # d else (k', v') # dict_set k v d)"

definition dict_keys :: "('k \<times> 'v) list \<Rightarrow> 'k list" where
  "dict_keys d = map fst d"

text \<open>\<^verbatim>\<open>template.format(**fields)\<close> on a template already split at its replacement
  fields: a field the call does not pass raises \<^verbatim>\<open>KeyError\<close>.\<close>

datatype seg = Lit string | Field string

fun format_template :: "seg list \<Rightarrow> (string \<times> string) list \<Rightarrow> error + string" where
  "format_template [] kw = Inr []"
| "format_template (Lit s # segs) kw =
     (case format_template segs kw of Inl e \<Rightarrow> Inl e | Inr r \<Rightarrow> Inr (s @ r))"
| "format_template (Field f # segs) kw =
     (case map_of kw f of
        None \<Rightarrow> Inl (KeyError f)
      | Some v \<Rightarrow> (case format_template segs kw of Inl e \<Rightarrow> Inl e | Inr r \<Rightarrow> Inr (v @ r)))"

section \<open>agent.py: tools, providers and the agent object\<close>

text \<open>
  Modelled from the spec: the tool class and \<^verbatim>\<open>discover_tools\<close> (package
  \<^verbatim>\<open>tools\<close>, not among the source files). The registry is
  \<^verbatim>\<open>{name -> (schema, invoke(args) -> result-or-error)}\<close>, keyed by each tool's own
  name. \<open>execute\<close> stands for the call \<^verbatim>\<open>tool.execute(**tool_args)\<close> on the parsed
  arguments: \<open>Inl\<close> carries \<^verbatim>\<open>str(e)\<close> of the exception it raises (also the
  \<^verbatim>\<open>TypeError\<close> of a failed \<^verbatim>\<open>**\<close> unpacking), \<open>Inr\<close> the result.
\<close>

record schema =
  schema_name :: string
  schema_description :: string
  schema_parameters :: json

record tool =
  tool_name :: string
  tool_description :: string
  tool_parameters :: json
  execute :: "json \<Rightarrow> string + json"

definition to_openrouter_schema :: "tool \<Rightarrow> schema" where
  "to_openrouter_schema t =
     \<lparr>schema_name = tool_name t, schema_description = tool_description t,
      schema_parameters = tool_parameters t\<rparr>"

definition discover_tools :: "tool list \<Rightarrow> (string \<times> tool) list" where
  "discover_tools found = foldl (\<lambda>d t. dict_set (tool_name t) t d) [] found"

text \<open>The OpenAI-compatible wire objects the OpenRouter agent reads and writes.\<close>

record tool_call =
  tc_id :: string
  tc_name :: string
  tc_arguments :: string

record assistant_message =
  am_content :: "string option"
  am_tool_calls :: "tool_call list option"

datatype message =
    SystemMsg string
  | UserMsg json
  | AssistantMsg "string option" "tool_call list option"
  | ToolMsg string string string

record or_request =
  req_model :: string
  req_messages :: "message list"
  req_tools :: "schema list"

record or_response =
  choices :: "assistant_message list"

text \<open>The Gemini wire objects.\<close>

record function_call =
  fc_name :: string
  fc_args :: "(string \<times> json) list option"

datatype part =
    TextPart json
  | BytesPart string string
  | FunctionCallPart function_call
  | FunctionResponsePart string json

record gm_content =
  gm_role :: string
  gm_parts :: "part list option"

record gm_request =
  greq_model :: string
  greq_contents :: "gm_content list"
  greq_tools :: "schema list"
  greq_system_instruction :: string

record gm_response =
  candidates :: "gm_content list"
  response_text :: "string option"

record image =
  mime_type :: string
  image_data :: string

text \<open>\<^verbatim>\<open>config.yaml\<close> as the agent reads it.\<close>

record config =
  provider :: "string option"
  system_prompt :: string
  max_iterations_opt :: "int option"
  openrouter_model :: string
  gemini_model :: string

text \<open>The five prompt templates of the orchestrator after \<^verbatim>\<open>_init_megamind_config\<close>
  (the configured text or the built-in default), split at their replacement fields.\<close>

record megamind =
  question_prompt :: "seg list"
  synthesis_prompt :: "seg list"
  validation_prompt_1 :: "seg list"
  validation_prompt_2 :: "seg list"
  final_synthesis_prompt :: "seg list"

text \<open>
  Everything outside the two modules: the configuration, the installed tools, the two
  provider clients (\<open>Inl\<close> carries \<^verbatim>\<open>str(e)\<close> of the exception the client raises),
  the library functions \<^verbatim>\<open>json.loads\<close> (\<open>Inl\<close> is the exception it raises: a
  \<^verbatim>\<open>JSONDecodeError\<close> on a text that is not JSON, but also a \<^verbatim>\<open>RecursionError\<close>
  on a text nested too deep), \<^verbatim>\<open>json.dumps\<close>, \<^verbatim>\<open>base64.b64decode\<close> and
  \<^verbatim>\<open>str\<close> of a list, and the wall-clock time an agent's run takes.
\<close>

record world =
  cfg :: config
  prompts :: megamind
  installed_tools :: "tool list"
  or_client :: "or_request \<Rightarrow> string + or_response"
  gm_client :: "gm_request \<Rightarrow> string + gm_response"
  json_loads :: "string \<Rightarrow> error + json"
  json_dumps :: "json \<Rightarrow> string"
  b64decode :: "string \<Rightarrow> string + string"
  py_str :: "json \<Rightarrow> string"
  elapsed :: "string \<Rightarrow> real"

datatype agent_class = OpenRouterAgent | GeminiAgent

record agent =
  agent_class :: agent_class
  discovered_tools :: "(string \<times> tool) list"
  tool_mapping :: "(string \<times> (json \<Rightarrow> string + json)) list"
  agent_tools :: "schema list"

text \<open>\<^verbatim>\<open>BaseAgent.__init__\<close> with the subclass constructors, chosen by
  \<^verbatim>\<open>create_agent\<close>.\<close>

definition create_agent :: "world \<Rightarrow> agent" where
  "create_agent w =
     (let d = discover_tools (installed_tools w);
          prov = py_lower (case provider (cfg w) of None \<Rightarrow> ''openrouter'' | Some p \<Rightarrow> p)
      in \<lparr>agent_class = (if prov = ''gemini'' then GeminiAgent else OpenRouterAgent),
          discovered_tools = d,
          tool_mapping = map (\<lambda>(n, t). (n, execute t)) d,
          agent_tools = map (\<lambda>(n, t). to_openrouter_schema t) d\<rparr>)"

definition or_remove_tool :: "string \<Rightarrow> agent \<Rightarrow> agent" where
  "or_remove_tool t ag =
     ag\<lparr>agent_tools := filter (\<lambda>s. schema_name s \<noteq> t) (agent_tools ag),
        tool_mapping := filter (\<lambda>(n, f). n \<noteq> t) (tool_mapping ag)\<rparr>"

definition gm_remove_tool :: "string \<Rightarrow> agent \<Rightarrow> agent" where
  "gm_remove_tool t ag =
     (let remaining_tools = filter (\<lambda>(n, tl). n \<noteq> t) (discovered_tools ag)
      in ag\<lparr>discovered_tools := remaining_tools,
            tool_mapping := filter (\<lambda>(n, f). n \<noteq> t) (tool_mapping ag),
            agent_tools := map (\<lambda>(n, tl). to_openrouter_schema tl) remaining_tools\<rparr>)"

definition remove_tool :: "string \<Rightarrow> agent \<Rightarrow> agent" where
  "remove_tool t ag =
     (case agent_class ag of
        OpenRouterAgent \<Rightarrow> or_remove_tool t ag
      | GeminiAgent \<Rightarrow> gm_remove_tool t ag)"

definition max_iterations :: "world \<Rightarrow> int" where
  "max_iterations w = (case max_iterations_opt (cfg w) of None \<Rightarrow> 10 | Some n \<Rightarrow> n)"

definition sentinel :: string where
  "sentinel = ''mark_task_complete''"

section \<open>agent.py: the agent loop\<close>

text \<open>
  The state of one run: the conversation, the assistant texts gathered so far, and
  three logs of what passed between the run and the outside: the tool schemas offered to
  the provider at each call of it, the tool functions called, with their arguments, in
  call order, and the text of each response that the run read (\<^verbatim>\<open>message.content\<close>,
  \<^verbatim>\<open>response.text\<close>), in turn order.
\<close>

record 'm run_state =
  conversation :: "'m list"
  full_response_content :: "string list"
  offered :: "schema list list"
  invoked :: "(string \<times> json) list"
  replies :: "string option list"

text \<open>How one pass through the body of the \<^verbatim>\<open>while\<close> loop ends: with the next
  iteration, a \<^verbatim>\<open>break\<close> (the Gemini loop only), a \<^verbatim>\<open>return\<close> or an exception.\<close>

datatype 's ctl = Continue 's | Break 's | Return string 's | Raise error 's

fun ctl_state :: "'s ctl \<Rightarrow> 's" where
  "ctl_state (Continue s) = s"
| "ctl_state (Break s) = s"
| "ctl_state (Return r s) = s"
| "ctl_state (Raise e s) = s"

text \<open>
  The loop both agents run, \<^verbatim>\<open>while iteration < max_iterations\<close> with
  \<^verbatim>\<open>iteration += 1\<close>, over the body \<open>turn\<close> of the agent at hand; below the loop,
  the accumulated texts joined by a blank line, or the agent's own message when there
  are none.
\<close>

function agent_while ::
  "('m run_state \<Rightarrow> 'm run_state ctl) \<Rightarrow> string \<Rightarrow> int \<Rightarrow> int \<Rightarrow> 'm run_state \<Rightarrow>
   (error + string) \<times> 'm run_state" where
  "agent_while turn exhausted max_it iteration st =
     (if iteration < max_it then
        (case turn st of
           Raise e st' \<Rightarrow> (Inl e, st')
         | Return r st' \<Rightarrow> (Inr r, st')
         | Break st' \<Rightarrow>
             (Inr (if full_response_content st' \<noteq> []
                   then py_join blank_line (full_response_content st') else exhausted), st')
         | Continue st' \<Rightarrow> agent_while turn exhausted max_it (iteration + 1) st')
      else
        (Inr (if full_response_content st \<noteq> []
              then py_join blank_line (full_response_content st) else exhausted), st))"
  by pat_completeness auto
termination
  by (relation "measure (\<lambda>(turn, exhausted, max_it, iteration, st). nat (max_it - iteration))")
     auto

text \<open>\<^verbatim>\<open>if content: full_response_content.append(content)\<close>: \<^verbatim>\<open>None\<close> and the empty
  string are skipped.\<close>

definition add_text :: "string option \<Rightarrow> 'm run_state \<Rightarrow> 'm run_state" where
  "add_text c st =
     (case c of
        None \<Rightarrow> st
      | Some s \<Rightarrow>
          if s \<noteq> [] then st\<lparr>full_response_content := full_response_content st @ [s]\<rparr>
          else st)"

subsection \<open>OpenRouterAgent\<close>

definition or_call_llm :: "world \<Rightarrow> agent \<Rightarrow> message list \<Rightarrow> error + or_response" where
  "or_call_llm w ag messages =
     (case or_client w \<lparr>req_model = openrouter_model (cfg w), req_messages = messages,
                        req_tools = agent_tools ag\<rparr> of
        Inl m \<Rightarrow> Inl (Exception (''LLM call failed: '' @ m))
      | Inr response \<Rightarrow> Inr response)"

definition error_payload :: "string \<Rightarrow> json" where
  "error_payload m = JObj [(''error'', JStr m)]"

text \<open>\<^verbatim>\<open>handle_tool_call\<close>: the tool message, and the tool function it called if any.
  The arguments are parsed before the name is looked up.\<close>

definition or_handle_tool_call ::
  "world \<Rightarrow> agent \<Rightarrow> tool_call \<Rightarrow> message \<times> (string \<times> json) list" where
  "or_handle_tool_call w ag tc =
     (let tool_name = tc_name tc
      in case json_loads w (tc_arguments tc) of
           Inl e \<Rightarrow>
             (ToolMsg (tc_id tc) tool_name
                (json_dumps w (error_payload (''Tool execution failed: '' @ str_exc e))), [])
         | Inr tool_args \<Rightarrow>
             (case map_of (tool_mapping ag) tool_name of
                Some f \<Rightarrow>
                  (case f tool_args of
                     Inl m \<Rightarrow>
                       (ToolMsg (tc_id tc) tool_name
                          (json_dumps w (error_payload (''Tool execution failed: '' @ m))),
                        [(tool_name, tool_args)])
                   | Inr tool_result \<Rightarrow>
                       (ToolMsg (tc_id tc) tool_name (json_dumps w tool_result),
                        [(tool_name, tool_args)]))
              | None \<Rightarrow>
                  (ToolMsg (tc_id tc) tool_name
                     (json_dumps w (error_payload (''Unknown tool: '' @ tool_name))), [])))"

text \<open>The \<^verbatim>\<open>for tool_call in assistant_message.tool_calls\<close> loop: it returns from
  \<^verbatim>\<open>run\<close> (\<open>True\<close>) right after the call named as the completion tool.\<close>

fun or_tool_calls ::
  "world \<Rightarrow> agent \<Rightarrow> tool_call list \<Rightarrow> message run_state \<Rightarrow> bool \<times> message run_state" where
  "or_tool_calls w ag [] st = (False, st)"
| "or_tool_calls w ag (tc # tcs) st =
     (let (tool_result, calls) = or_handle_tool_call w ag tc;
          st' = st\<lparr>conversation := conversation st @ [tool_result],
                   invoked := invoked st @ calls\<rparr>
      in if tc_name tc = sentinel then (True, st') else or_tool_calls w ag tcs st')"

definition or_turn :: "world \<Rightarrow> agent \<Rightarrow> message run_state \<Rightarrow> message run_state ctl" where
  "or_turn w ag st =
     (let st1 = st\<lparr>offered := offered st @ [agent_tools ag]\<rparr>
      in case or_call_llm w ag (conversation st) of
           Inl e \<Rightarrow> Raise e st1
         | Inr response \<Rightarrow>
             (case choices response of
                [] \<Rightarrow> Raise (IndexError ''list index out of range'') st1
              | assistant_message # _ \<Rightarrow>
                  (let st2 = st1\<lparr>conversation := conversation st1 @
                               [AssistantMsg (am_content assistant_message)
                                  (am_tool_calls assistant_message)],
                             replies := replies st1 @ [am_content assistant_message]\<rparr>;
                       st3 = add_text (am_content assistant_message) st2
                   in case am_tool_calls assistant_message of
                        None \<Rightarrow> Continue st3
                      | Some [] \<Rightarrow> Continue st3
                      | Some (tc # tcs) \<Rightarrow>
                          (case or_tool_calls w ag (tc # tcs) st3 of
                             (True, st4) \<Rightarrow>
                               Return (py_join blank_line (full_response_content st4)) st4
                           | (False, st4) \<Rightarrow> Continue st4))))"

definition or_exhausted :: string where
  "or_exhausted = ''Maximum iterations reached. The agent may be stuck in a loop.''"

definition or_build_user_content :: "json \<Rightarrow> image list option \<Rightarrow> json" where
  "or_build_user_content user_input images =
     (case images of
        None \<Rightarrow> user_input
      | Some [] \<Rightarrow> user_input
      | Some (i # is) \<Rightarrow>
          JArr (map (\<lambda>img. JObj [(''type'', JStr ''image_url''),
                                  (''image_url'', JObj [(''url'',
                                     JStr (''data:'' @ mime_type img @ '';base64,'' @ image_data img))])])
                  (i # is)
                @ [JObj [(''type'', JStr ''text''), (''text'', user_input)]]))"

definition or_run ::
  "world \<Rightarrow> agent \<Rightarrow> json \<Rightarrow> image list option \<Rightarrow> (error + string) \<times> message run_state" where
  "or_run w ag user_input images =
     agent_while (or_turn w ag) or_exhausted (max_iterations w) 0
       \<lparr>conversation = [SystemMsg (system_prompt (cfg w)),
                        UserMsg (or_build_user_content user_input images)],
        full_response_content = [], offered = [], invoked = [], replies = []\<rparr>"

subsection \<open>GeminiAgent\<close>

definition gm_call_llm ::
  "world \<Rightarrow> agent \<Rightarrow> gm_content list \<Rightarrow> error + gm_response" where
  "gm_call_llm w ag contents =
     (case gm_client w \<lparr>greq_model = gemini_model (cfg w), greq_contents = contents,
                        greq_tools = agent_tools ag,
                        greq_system_instruction = system_prompt (cfg w)\<rparr> of
        Inl m \<Rightarrow> Inl (Exception (''Gemini API call failed: '' @ m))
      | Inr response \<Rightarrow> Inr response)"

definition gm_handle_tool_call ::
  "agent \<Rightarrow> function_call \<Rightarrow> json \<times> (string \<times> json) list" where
  "gm_handle_tool_call ag fc =
     (let tool_name = fc_name fc;
          tool_args = JObj (case fc_args fc of None \<Rightarrow> [] | Some kvs \<Rightarrow> kvs)
      in case map_of (tool_mapping ag) tool_name of
           Some f \<Rightarrow>
             (case f tool_args of
                Inl m \<Rightarrow> (error_payload (''Tool execution failed: '' @ m), [(tool_name, tool_args)])
              | Inr tool_result \<Rightarrow> (tool_result, [(tool_name, tool_args)]))
         | None \<Rightarrow> (error_payload (''Unknown tool: '' @ tool_name), []))"

text \<open>The \<^verbatim>\<open>for fc in function_calls\<close> loop: it sets \<^verbatim>\<open>task_completed\<close> at the
  completion tool and goes on to the end of the list.\<close>

fun gm_tool_calls ::
  "agent \<Rightarrow> function_call list \<Rightarrow> bool \<times> part list \<times> (string \<times> json) list \<Rightarrow>
   bool \<times> part list \<times> (string \<times> json) list" where
  "gm_tool_calls ag [] acc = acc"
| "gm_tool_calls ag (fc # fcs) (task_completed, function_response_parts, calls) =
     (let (result, called) = gm_handle_tool_call ag fc
      in gm_tool_calls ag fcs
           (task_completed \<or> fc_name fc = sentinel,
            function_response_parts @
              [FunctionResponsePart (fc_name fc) (JObj [(''result'', result)])],
            calls @ called))"

fun function_calls_of :: "part list \<Rightarrow> function_call list" where
  "function_calls_of [] = []"
| "function_calls_of (FunctionCallPart fc # ps) = fc # function_calls_of ps"
| "function_calls_of (p # ps) = function_calls_of ps"

definition gm_turn ::
  "world \<Rightarrow> agent \<Rightarrow> gm_content run_state \<Rightarrow> gm_content run_state ctl" where
  "gm_turn w ag st =
     (let st1 = st\<lparr>offered := offered st @ [agent_tools ag]\<rparr>
      in case gm_call_llm w ag (conversation st) of
           Inl e \<Rightarrow> Raise e st1
         | Inr response \<Rightarrow>
             (case candidates response of
                [] \<Rightarrow> Break st1
              | response_content # _ \<Rightarrow>
                  (let st2 = st1\<lparr>conversation := conversation st1 @ [response_content],
                             replies := replies st1 @ [response_text response]\<rparr>;
                       st3 = add_text (response_text response) st2;
                       function_calls =
                         function_calls_of
                           (case gm_parts response_content of None \<Rightarrow> [] | Some ps \<Rightarrow> ps)
                   in if function_calls \<noteq> [] then
                        (let (task_completed, function_response_parts, calls) =
                               gm_tool_calls ag function_calls (False, [], []);
                             st4 = st3\<lparr>conversation := conversation st3 @
                                          [\<lparr>gm_role = ''user'',
                                            gm_parts = Some function_response_parts\<rparr>],
                                        invoked := invoked st3 @ calls\<rparr>
                         in if task_completed
                            then Return (py_join blank_line (full_response_content st4)) st4
                            else Continue st4)
                      else Continue st3)))"

definition gm_exhausted :: string where
  "gm_exhausted = ''Maximum iterations reached.''"

text \<open>\<^verbatim>\<open>_build_content_parts\<close>: \<^verbatim>\<open>base64.b64decode\<close> raises on data that is not
  base64 (a \<^verbatim>\<open>binascii.Error\<close>, a \<^verbatim>\<open>ValueError\<close>).\<close>

fun gm_image_parts :: "world \<Rightarrow> image list \<Rightarrow> error + part list" where
  "gm_image_parts w [] = Inr []"
| "gm_image_parts w (img # imgs) =
     (case b64decode w (image_data img) of
        Inl m \<Rightarrow> Inl (ValueError m)
      | Inr image_bytes \<Rightarrow>
          (case gm_image_parts w imgs of
             Inl e \<Rightarrow> Inl e
           | Inr ps \<Rightarrow> Inr (BytesPart image_bytes (mime_type img) # ps)))"

definition gm_build_content_parts ::
  "world \<Rightarrow> json \<Rightarrow> image list option \<Rightarrow> error + part list" where
  "gm_build_content_parts w user_input images =
     (case gm_image_parts w (case images of None \<Rightarrow> [] | Some imgs \<Rightarrow> imgs) of
        Inl e \<Rightarrow> Inl e
      | Inr ps \<Rightarrow> Inr (ps @ [TextPart user_input]))"

definition gm_run ::
  "world \<Rightarrow> agent \<Rightarrow> json \<Rightarrow> image list option \<Rightarrow>
   (error + string) \<times> gm_content run_state" where
  "gm_run w ag user_input images =
     (case gm_build_content_parts w user_input images of
        Inl e \<Rightarrow>
          (Inl e, \<lparr>conversation = [], full_response_content = [], offered = [], invoked = [], replies = []\<rparr>)
      | Inr ps \<Rightarrow>
          agent_while (gm_turn w ag) gm_exhausted (max_iterations w) 0
            \<lparr>conversation = [\<lparr>gm_role = ''user'', gm_parts = Some ps\<rparr>],
             full_response_content = [], offered = [], invoked = [], replies = []\<rparr>)"

subsection \<open>The run of either agent, as its caller sees it\<close>

record run_result =
  outcome :: "error + string"
  run_offered :: "schema list list"
  run_invoked :: "(string \<times> json) list"

definition run :: "world \<Rightarrow> agent \<Rightarrow> json \<Rightarrow> image list option \<Rightarrow> run_result" where
  "run w ag user_input images =
     (case agent_class ag of
        OpenRouterAgent \<Rightarrow>
          (let (r, st) = or_run w ag user_input images
           in \<lparr>outcome = r, run_offered = offered st, run_invoked = invoked st\<rparr>)
      | GeminiAgent \<Rightarrow>
          (let (r, st) = gm_run w ag user_input images
           in \<lparr>outcome = r, run_offered = offered st, run_invoked = invoked st\<rparr>))"

section \<open>megamind_orchestrator.py\<close>

subsection \<open>The progress store\<close>

record progress =
  stage_progress :: "(string \<times> string) list"
  agent_progress :: "(string \<times> string \<times> string option) list"

definition update_stage :: "string \<Rightarrow> string \<Rightarrow> progress \<Rightarrow> progress" where
  "update_stage stage status p = p\<lparr>stage_progress := dict_set stage status (stage_progress p)\<rparr>"

definition update_agent_progress ::
  "string \<Rightarrow> string \<Rightarrow> string option \<Rightarrow> progress \<Rightarrow> progress" where
  "update_agent_progress agent_id status result p =
     p\<lparr>agent_progress := dict_set agent_id (status, result) (agent_progress p)\<rparr>"

definition get_progress_status ::
  "progress \<Rightarrow> (string \<times> string) list \<times> (string \<times> string \<times> string option) list" where
  "get_progress_status p = (stage_progress p, agent_progress p)"

text \<open>
  What a stage does to the outside, in the order it does it: the writes to the progress
  store, the calls of \<^verbatim>\<open>agent.run\<close> (with the progress key of the agent, the prompt and
  the images passed, the keys of the agent's \<^verbatim>\<open>tool_mapping\<close> and the names of the
  schemas it offers), and the calls of the status callback. The store at any moment is
  the replay of the events so far.
\<close>

datatype event =
    StageUpdate string string
  | AgentUpdate string string "string option"
  | AgentRun string json "image list option" "string list" "string list"
  | StatusCallback string

fun apply_event :: "progress \<Rightarrow> event \<Rightarrow> progress" where
  "apply_event p (StageUpdate stage status) = update_stage stage status p"
| "apply_event p (AgentUpdate agent_id status result) =
     update_agent_progress agent_id status result p"
| "apply_event p ev = p"

definition replay :: "event list \<Rightarrow> progress" where
  "replay evs = foldl apply_event \<lparr>stage_progress = [], agent_progress = []\<rparr> evs"

subsection \<open>Worker threads\<close>

text \<open>
  A fan-out stage runs one \<^verbatim>\<open>_run_agent\<close> per worker thread. The threads' events
  interleave: \<open>interleaving\<close> names the thread that takes each next step (a thread
  with nothing left to do is skipped), and leaving the \<^verbatim>\<open>with ThreadPoolExecutor\<close>
  block waits for the rest. \<open>yield_order\<close> lists the positions of the futures that
  \<^verbatim>\<open>as_completed\<close> yields before \<^verbatim>\<open>task_timeout\<close> seconds have passed, in the order
  it yields them; when a future is missing from it, the iterator raises
  \<^verbatim>\<open>TimeoutError\<close> after the last one it yields.
\<close>

record schedule =
  interleaving :: "nat list"
  yield_order :: "nat list"

fun interleave :: "nat list \<Rightarrow> 'a list list \<Rightarrow> 'a list" where
  "interleave [] threads = concat threads"
| "interleave (i # sched) threads =
     (if i < length threads then
        (case threads ! i of
           [] \<Rightarrow> interleave sched threads
         | step # rest \<Rightarrow> step # interleave sched (threads[i := rest]))
      else interleave sched threads)"

definition as_completed :: "'a list \<Rightarrow> nat list \<Rightarrow> 'a list \<times> bool" where
  "as_completed futures order =
     (let yielded = remdups (filter (\<lambda>i. i < length futures) order)
      in (map (\<lambda>i. futures ! i) yielded, length yielded < length futures))"

record agent_result =
  agent_id :: string
  status :: string
  response :: string
  execution_time :: real

text \<open>The loop of \<^verbatim>\<open>_run_agent\<close> under \<^verbatim>\<open>remove_tools\<close>, and the loop of the synthesis
  stages that removes every tool.\<close>

definition keep_search_and_calculator :: "agent \<Rightarrow> agent" where
  "keep_search_and_calculator agent =
     foldl (\<lambda>a tool_name.
              if tool_name \<noteq> ''search'' \<and> tool_name \<noteq> ''calculator''
              then remove_tool tool_name a else a)
       agent (dict_keys (tool_mapping agent))"

definition remove_all_tools :: "agent \<Rightarrow> agent" where
  "remove_all_tools agent =
     foldl (\<lambda>a tool_name. remove_tool tool_name a) agent (dict_keys (tool_mapping agent))"

text \<open>The call \<^verbatim>\<open>agent.run(prompt, images)\<close> with the event that records it.\<close>

definition run_logged ::
  "world \<Rightarrow> string \<Rightarrow> agent \<Rightarrow> json \<Rightarrow> image list option \<Rightarrow> (error + string) \<times> event" where
  "run_logged w key agent prompt images =
     (outcome (run w agent prompt images),
      AgentRun key prompt images (dict_keys (tool_mapping agent))
        (map schema_name (agent_tools agent)))"

definition run_agent :: "world \<Rightarrow> string \<Rightarrow> json \<Rightarrow> bool \<Rightarrow> agent_result \<times> event list" where
  "run_agent w aid prompt remove_tools =
     (let agent0 = create_agent w;
          agent = (if remove_tools then keep_search_and_calculator agent0 else agent0)
      in case run_logged w aid agent prompt None of
           (Inr r, logged) \<Rightarrow>
             (\<lparr>agent_id = aid, status = ''success'', response = r,
               execution_time = elapsed w aid\<rparr>,
              [AgentUpdate aid ''PROCESSING'' None, logged, AgentUpdate aid ''COMPLETED'' (Some r)])
         | (Inl e, logged) \<Rightarrow>
             (\<lparr>agent_id = aid, status = ''error'', response = ''Error: '' @ str_exc e,
               execution_time = 0\<rparr>,
              [AgentUpdate aid ''PROCESSING'' None, logged, AgentUpdate aid ''FAILED'' None]))"

subsection \<open>Stage 1: question generation\<close>

function str_nat :: "nat \<Rightarrow> string" where
  "str_nat n =
     (if n < 10 then [char_of (48 + n)] else str_nat (n div 10) @ [char_of (48 + n mod 10)])"
  by pat_completeness auto
termination
  by (relation "measure id") auto

definition fallback_questions :: "string \<Rightarrow> string list" where
  "fallback_questions user_input =
     [''Research comprehensive information about: '' @ user_input,
      ''Analyze and provide insights about: '' @ user_input,
      ''Find alternative perspectives on: '' @ user_input,
      ''Verify and cross-check facts about: '' @ user_input]"

text \<open>The body of the \<^verbatim>\<open>try\<close> block up to the length check: the response and the
  questions parsed from it, or the exception raised, by the run, by \<^verbatim>\<open>json.loads\<close>,
  by \<^verbatim>\<open>len\<close> or by the check itself.\<close>

definition parse_questions :: "world \<Rightarrow> error + string \<Rightarrow> error + string \<times> json" where
  "parse_questions w attempt =
     (case attempt of
        Inl e \<Rightarrow> Inl e
      | Inr r \<Rightarrow>
          (case json_loads w (py_strip r) of
             Inl e \<Rightarrow> Inl e
           | Inr qs \<Rightarrow>
               (case py_len qs of
                  Inl e \<Rightarrow> Inl e
                | Inr n \<Rightarrow>
                    if n \<noteq> 4 then Inl (ValueError (''Expected 4 questions, got '' @ str_nat n))
                    else Inr (r, qs))))"

definition generate_questions :: "world \<Rightarrow> string \<Rightarrow> (error + json) \<times> event list" where
  "generate_questions w user_input =
     (let ev0 = [StageUpdate ''question_generation'' ''IN_PROGRESS'',
                 AgentUpdate ''question_gen'' ''PROCESSING'' None];
          agent = remove_tool ''mark_task_complete'' (create_agent w)
      in case format_template (question_prompt (prompts w)) [(''user_input'', user_input)] of
           Inl e \<Rightarrow> (Inl e, ev0)
         | Inr prompt \<Rightarrow>
             (let (out, logged) = run_logged w ''question_gen'' agent (JStr prompt) None;
                  ev1 = ev0 @ [logged]
              in case parse_questions w out of
                   Inr (r, qs) \<Rightarrow>
                     (Inr qs,
                      ev1 @ [AgentUpdate ''question_gen'' ''COMPLETED'' (Some r),
                             StageUpdate ''question_generation'' ''COMPLETED''])
                 | Inl e \<Rightarrow>
                     if is_value_error e then
                       (let fallback = JArr (map JStr (fallback_questions user_input))
                        in (Inr fallback,
                            ev1 @ [AgentUpdate ''question_gen'' ''COMPLETED'' (Some (py_str w fallback)),
                                   StageUpdate ''question_generation'' ''COMPLETED'']))
                     else (Inl e, ev1)))"

subsection \<open>Stage 2: parallel research\<close>

definition agent_names :: "string list" where
  "agent_names = [''research'', ''analysis'', ''alternatives'', ''verification'']"

text \<open>The \<^verbatim>\<open>try\<close>/\<^verbatim>\<open>except\<close> around \<^verbatim>\<open>future.result()\<close>, with the label of the
  record made up for a future that raises.\<close>

definition collect_result :: "string \<Rightarrow> string \<Rightarrow> error + agent_result \<Rightarrow> agent_result" where
  "collect_result label prefix fut =
     (case fut of
        Inr result \<Rightarrow> result
      | Inl e \<Rightarrow>
          \<lparr>agent_id = label, status = ''error'', response = prefix @ str_exc e,
           execution_time = 0\<rparr>)"

definition run_parallel_agents ::
  "world \<Rightarrow> schedule \<Rightarrow> json \<Rightarrow> image list option \<Rightarrow> (error + agent_result list) \<times> event list" where
  "run_parallel_agents w sched questions images =
     (let ev0 = StageUpdate ''parallel_research'' ''IN_PROGRESS'' #
                map (\<lambda>name. AgentUpdate name ''QUEUED'' None) agent_names
      in case py_iter questions of
           Inl e \<Rightarrow> (Inl e, ev0)
         | Inr qs \<Rightarrow>
             (let tasks = map (\<lambda>(name, question). (name, run_agent w name question False))
                            (zip agent_names qs);
                  futures = map (\<lambda>(name, r, evs). (name, Inr r :: error + agent_result)) tasks;
                  ev1 = ev0 @ interleave (interleaving sched) (map (\<lambda>(name, r, evs). evs) tasks)
              in case as_completed futures (yield_order sched) of
                   (yielded, True) \<Rightarrow> (Inl TimeoutError, ev1)
                 | (yielded, False) \<Rightarrow>
                     (Inr (map (\<lambda>(name, fut). collect_result name ''Agent failed: '' fut) yielded),
                      ev1 @ [StageUpdate ''parallel_research'' ''COMPLETED''])))"

subsection \<open>Stage 3: first synthesis\<close>

fun index_of :: "'a \<Rightarrow> 'a list \<Rightarrow> nat" where
  "index_of x [] = 0"
| "index_of x (y # ys) = (if x = y then 0 else Suc (index_of x ys))"

definition display_names :: "string list" where
  "display_names = [''Research'', ''Analysis'', ''Alternatives'', ''Verification'']"

definition section_name :: "string \<Rightarrow> string" where
  "section_name aid =
     (let idx = (if aid \<in> set agent_names then index_of aid agent_names else 0)
      in if idx < length display_names then display_names ! idx else aid)"

definition section_text :: "agent_result \<Rightarrow> string" where
  "section_text result =
     ''=== '' @ py_upper (section_name (agent_id result)) @ '' AGENT ==='' @ [CHR 0x0A] @
     response result @ blank_line"

text \<open>The \<^verbatim>\<open>for result in agent_results\<close> loop, appending to
  \<^verbatim>\<open>agent_responses_text\<close>.\<close>

definition agent_responses_text :: "agent_result list \<Rightarrow> string" where
  "agent_responses_text agent_results =
     foldl (\<lambda>acc result. acc @ section_text result) [] agent_results"

definition first_synthesis :: "world \<Rightarrow> agent_result list \<Rightarrow> (error + string) \<times> event list" where
  "first_synthesis w agent_results =
     (let ev0 = [StageUpdate ''first_synthesis'' ''IN_PROGRESS'',
                 AgentUpdate ''synthesis'' ''PROCESSING'' None]
      in case format_template (synthesis_prompt (prompts w))
                [(''agent_responses'', agent_responses_text agent_results)] of
           Inl e \<Rightarrow> (Inl e, ev0)
         | Inr prompt \<Rightarrow>
             (let agent = remove_all_tools (create_agent w)
              in case run_logged w ''synthesis'' agent (JStr prompt) None of
                   (Inr r, logged) \<Rightarrow>
                     (Inr r, ev0 @ [logged, AgentUpdate ''synthesis'' ''COMPLETED'' (Some r),
                                    StageUpdate ''first_synthesis'' ''COMPLETED''])
                 | (Inl e, logged) \<Rightarrow>
                     (Inl e, ev0 @ [logged, AgentUpdate ''synthesis'' ''FAILED'' None,
                                    StageUpdate ''first_synthesis'' ''FAILED''])))"

subsection \<open>Stage 4: validation\<close>

definition run_validation ::
  "world \<Rightarrow> schedule \<Rightarrow> string \<Rightarrow> string \<Rightarrow> (error + agent_result list) \<times> event list" where
  "run_validation w sched original_query draft_answer =
     (let ev0 = [StageUpdate ''validation'' ''IN_PROGRESS'',
                 AgentUpdate ''validator_1'' ''QUEUED'' None,
                 AgentUpdate ''validator_2'' ''QUEUED'' None];
          kw = [(''original_query'', original_query), (''draft_answer'', draft_answer)]
      in case format_template (validation_prompt_1 (prompts w)) kw of
           Inl e \<Rightarrow> (Inl e, ev0)
         | Inr prompt_1 \<Rightarrow>
             (case format_template (validation_prompt_2 (prompts w)) kw of
                Inl e \<Rightarrow> (Inl e, ev0)
              | Inr prompt_2 \<Rightarrow>
                  (let tasks = [run_agent w ''validator_1'' (JStr prompt_1) True,
                                run_agent w ''validator_2'' (JStr prompt_2) True];
                       futures = map (\<lambda>(r, evs). Inr r :: error + agent_result) tasks;
                       ev1 = ev0 @ interleave (interleaving sched) (map snd tasks)
                   in case as_completed futures (yield_order sched) of
                        (yielded, True) \<Rightarrow> (Inl TimeoutError, ev1)
                      | (yielded, False) \<Rightarrow>
                          (Inr (map (collect_result ''validator'' ''Validation failed: '') yielded),
                           ev1 @ [StageUpdate ''validation'' ''COMPLETED'']))))"

subsection \<open>Stage 5: final synthesis\<close>

text \<open>\<^verbatim>\<open>next((r['response'] for r in validation_results if r.get('agent_id') == key), '')\<close>.\<close>

fun first_response :: "string \<Rightarrow> agent_result list \<Rightarrow> string" where
  "first_response key [] = []"
| "first_response key (r # rs) = (if agent_id r = key then response r else first_response key rs)"

definition final_synthesis ::
  "world \<Rightarrow> string \<Rightarrow> string \<Rightarrow> agent_result list \<Rightarrow> (error + string) \<times> event list" where
  "final_synthesis w original_query draft_answer validation_results =
     (let ev0 = [StageUpdate ''final_synthesis'' ''IN_PROGRESS'',
                 AgentUpdate ''final'' ''PROCESSING'' None];
          validation_1 = first_response ''validator_1'' validation_results;
          validation_2 = first_response ''validator_2'' validation_results
      in case format_template (final_synthesis_prompt (prompts w))
                [(''original_query'', original_query), (''draft_answer'', draft_answer),
                 (''validation_1'', validation_1), (''validation_2'', validation_2)] of
           Inl e \<Rightarrow> (Inl e, ev0)
         | Inr prompt \<Rightarrow>
             (let agent = remove_all_tools (create_agent w)
              in case run_logged w ''final'' agent (JStr prompt) None of
                   (Inr r, logged) \<Rightarrow>
                     (Inr r, ev0 @ [logged, AgentUpdate ''final'' ''COMPLETED'' (Some r),
                                    StageUpdate ''final_synthesis'' ''COMPLETED''])
                 | (Inl e, logged) \<Rightarrow>
                     (Inl e, ev0 @ [logged, AgentUpdate ''final'' ''FAILED'' None,
                                    StageUpdate ''final_synthesis'' ''FAILED''])))"

subsection \<open>The pipeline\<close>

record all_results =
  questions :: json
  research_results :: "agent_result list"
  first_draft :: string
  validation_results :: "agent_result list"
  final_result :: string

definition stage_label :: "string \<Rightarrow> string" where
  "stage_label stage =
     (if stage = ''question_generation'' then ''Generating specialized questions''
      else if stage = ''parallel_research'' then ''Running parallel research agents''
      else if stage = ''first_synthesis'' then ''Synthesizing first draft''
      else if stage = ''validation'' then ''Running validation agents''
      else ''Creating final answer'')"

definition callback :: "bool \<Rightarrow> string \<Rightarrow> event list" where
  "callback status_callback stage =
     (if status_callback then [StatusCallback (stage_label stage)] else [])"

text \<open>
  Sequencing of stages: each stage returns its result or the exception it raises,
  together with its events. \<open>emit\<close> puts events before those of a stage;
  \<open>and_then\<close> runs the rest of the pipeline on the result of a stage, and stops
  with the exception when the stage raises.
\<close>

definition emit :: "event list \<Rightarrow> (error + 'a) \<times> event list \<Rightarrow> (error + 'a) \<times> event list" where
  "emit evs m = (fst m, evs @ snd m)"

definition and_then ::
  "(error + 'a) \<times> event list \<Rightarrow> ('a \<Rightarrow> (error + 'b) \<times> event list) \<Rightarrow>
   (error + 'b) \<times> event list" where
  "and_then m f =
     (case fst m of
        Inl e \<Rightarrow> (Inl e, snd m)
      | Inr x \<Rightarrow> (fst (f x), snd m @ snd (f x)))"

text \<open>\<^verbatim>\<open>orchestrate\<close>: it starts from an empty progress store; \<open>research\<close> and
  \<open>validation\<close> are the schedules of the two fan-out stages, and \<open>status_callback\<close>
  says whether the caller passed one.\<close>

definition orchestrate ::
  "world \<Rightarrow> schedule \<Rightarrow> schedule \<Rightarrow> string \<Rightarrow> image list option \<Rightarrow> bool \<Rightarrow>
   (error + all_results) \<times> event list" where
  "orchestrate w research validation user_input images status_callback =
     (let cb = callback status_callback
      in and_then (emit (cb ''question_generation'') (generate_questions w user_input))
           (\<lambda>qs.
         and_then (emit (cb ''parallel_research'') (run_parallel_agents w research qs images))
           (\<lambda>rs.
         and_then (emit (cb ''first_synthesis'') (first_synthesis w rs))
           (\<lambda>draft.
         and_then (emit (cb ''validation'') (run_validation w validation user_input draft))
           (\<lambda>vs.
         and_then (emit (cb ''final_synthesis'') (final_synthesis w user_input draft vs))
           (\<lambda>final.
         (Inr \<lparr>questions = qs, research_results = rs, first_draft = draft,
               validation_results = vs, final_result = final\<rparr>, [])))))))"

definition orchestrate_progress ::
  "world \<Rightarrow> schedule \<Rightarrow> schedule \<Rightarrow> string \<Rightarrow> image list option \<Rightarrow> bool \<Rightarrow> progress" where
  "orchestrate_progress w research validation user_input images status_callback =
     replay (snd (orchestrate w research validation user_input images status_callback))"

section \<open>Notions the claims are stated with\<close>

text \<open>The texts of the assistant messages of a conversation, in turn order, the empty
  ones left out.\<close>

fun assistant_texts :: "message list \<Rightarrow> string list" where
  "assistant_texts [] = []"
| "assistant_texts (AssistantMsg (Some c) tcs # ms) =
     (if c \<noteq> [] then c # assistant_texts ms else assistant_texts ms)"
| "assistant_texts (m # ms) = assistant_texts ms"

text \<open>The text segments among the texts of the responses, in turn order: \<^verbatim>\<open>None\<close>
  and the empty text are no segment.\<close>

fun text_segments :: "string option list \<Rightarrow> string list" where
  "text_segments [] = []"
| "text_segments (None # cs) = text_segments cs"
| "text_segments (Some s # cs) = (if s \<noteq> [] then s # text_segments cs else text_segments cs)"

text \<open>The completion signal: some response of the provider in the conversation asks
  for the completion tool.\<close>

fun or_signalled :: "message list \<Rightarrow> bool" where
  "or_signalled [] = False"
| "or_signalled (AssistantMsg c (Some tcs) # ms) =
     (sentinel \<in> set (map tc_name tcs) \<or> or_signalled ms)"
| "or_signalled (m # ms) = or_signalled ms"

definition gm_signalled :: "gm_content list \<Rightarrow> bool" where
  "gm_signalled contents =
     list_ex (\<lambda>c. sentinel \<in> set (map fc_name
                     (function_calls_of (case gm_parts c of None \<Rightarrow> [] | Some ps \<Rightarrow> ps))))
       contents"

text \<open>The positions of the \<open>n\<close> tasks of a fan-out stage in the order in which a
  schedule completes them: the positions it lists, each once.\<close>

definition completion_order :: "nat \<Rightarrow> schedule \<Rightarrow> nat list" where
  "completion_order n sched = remdups (filter (\<lambda>i. i < n) (yield_order sched))"

text \<open>The registry of an agent is keyed by the names of its tools, as
  \<^verbatim>\<open>discover_tools\<close> builds it.\<close>

definition keyed_by_name :: "agent \<Rightarrow> bool" where
  "keyed_by_name ag = list_all (\<lambda>(n, tl). tool_name tl = n) (discovered_tools ag)"

text \<open>The schemas of a Gemini agent are those of its registry, which is keyed by name:
  what \<^verbatim>\<open>_build_gemini_tools\<close> keeps true.\<close>

definition gm_consistent :: "agent \<Rightarrow> bool" where
  "gm_consistent ag \<longleftrightarrow>
     (agent_class ag = GeminiAgent \<longrightarrow>
        keyed_by_name ag \<and>
        agent_tools ag = map (\<lambda>(n, tl). to_openrouter_schema tl) (discovered_tools ag))"

text \<open>An event other than a run of an agent with images.\<close>

fun passes_no_images :: "event \<Rightarrow> bool" where
  "passes_no_images (AgentRun key prompt images keys names) = (images = None)"
| "passes_no_images ev = True"

text \<open>
  The place of a status in the chain not-started, queued, in-progress, completed or
  failed, with the names the orchestrator writes; the statuses written for one key of
  the stage level or of the agent level, in the order of the writes; and a history that
  only moves forward in the chain, each write further than the one before.
\<close>

definition rank :: "string \<Rightarrow> nat" where
  "rank s =
     (if s = ''QUEUED'' then 1
      else if s = ''IN_PROGRESS'' \<or> s = ''PROCESSING'' then 2
      else if s = ''COMPLETED'' \<or> s = ''FAILED'' then 3
      else 0)"

fun stage_write :: "string \<Rightarrow> event \<Rightarrow> string list" where
  "stage_write k (StageUpdate stage s) = (if stage = k then [s] else [])"
| "stage_write k ev = []"

fun agent_write :: "string \<Rightarrow> event \<Rightarrow> string list" where
  "agent_write k (AgentUpdate aid s r) = (if aid = k then [s] else [])"
| "agent_write k ev = []"

definition stage_history :: "string \<Rightarrow> event list \<Rightarrow> string list" where
  "stage_history k evs = concat (map (stage_write k) evs)"

definition agent_history :: "string \<Rightarrow> event list \<Rightarrow> string list" where
  "agent_history k evs = concat (map (agent_write k) evs)"

definition forward_only :: "string list \<Rightarrow> bool" where
  "forward_only h = sorted_wrt (<) (map rank h)"

text \<open>The status that the progress store holds for a stage, or for an agent, once the
  events have happened (what \<^verbatim>\<open>get_progress_status\<close> shows at that moment), if it holds
  one.\<close>

definition stage_status :: "string \<Rightarrow> event list \<Rightarrow> string option" where
  "stage_status k evs = map_of (stage_progress (replay evs)) k"

definition agent_status :: "string \<Rightarrow> event list \<Rightarrow> string option" where
  "agent_status k evs = map_option fst (map_of (agent_progress (replay evs)) k)"

text \<open>The events write at the keys of \<open>K\<close> only, and forward at each key.\<close>

definition writes_forward ::
  "(string \<Rightarrow> event \<Rightarrow> string list) \<Rightarrow> string set \<Rightarrow> event list \<Rightarrow> bool" where
  "writes_forward wr K evs \<longleftrightarrow>
     (\<forall>k. (k \<notin> K \<longrightarrow> concat (map (wr k) evs) = []) \<and>
          forward_only (concat (map (wr k) evs)))"

section \<open>Example inputs\<close>

text \<open>
  Four installed tools; a provider seen through the OpenAI-compatible client that ends
  at its first turn with the text it is given, one that is unreachable and one that never
  asks for a tool; a Gemini provider that asks for the completion tool and then for a
  search in one turn, and one that answers without candidates. \<open>demo_loads\<close>,
  \<open>demo_dumps\<close> and \<open>demo_str\<close> agree with \<^verbatim>\<open>json.loads\<close>, \<^verbatim>\<open>json.dumps\<close>
  and \<^verbatim>\<open>str\<close> on the values the examples pass them.
\<close>

definition demo_tool :: "string \<Rightarrow> tool" where
  "demo_tool n =
     \<lparr>tool_name = n, tool_description = [], tool_parameters = JObj [],
      execute = (\<lambda>args. Inr (JStr n))\<rparr>"

definition demo_tools :: "tool list" where
  "demo_tools = map demo_tool [''mark_task_complete'', ''search'', ''calculator'', ''read_file'']"

definition quoted :: "string \<Rightarrow> string" where
  "quoted s = [CHR 0x22] @ s @ [CHR 0x22]"

definition four_strings :: string where
  "four_strings =
     ''['' @ quoted ''a'' @ '', '' @ quoted ''b'' @ '', '' @ quoted ''c'' @ '', '' @
     quoted ''d'' @ '']''"

definition demo_loads :: "string \<Rightarrow> error + json" where
  "demo_loads s =
     (if s = ''{}'' then Inr (JObj [])
      else if s = four_strings then Inr (JArr [JStr ''a'', JStr ''b'', JStr ''c'', JStr ''d''])
      else if s = ''[1, 2]'' then Inr (JArr [JInt 1, JInt 2])
      else if s = ''5'' then Inr (JInt 5)
      else Inl (JSONDecodeError ''Expecting value: line 1 column 1 (char 0)''))"

fun demo_dumps :: "json \<Rightarrow> string" where
  "demo_dumps (JStr s) = quoted s"
| "demo_dumps (JObj [(k, JStr s)]) = ''{'' @ quoted k @ '': '' @ quoted s @ ''}''"
| "demo_dumps v = ''null''"

fun demo_str :: "json \<Rightarrow> string" where
  "demo_str (JStr s) = [CHR 0x27] @ s @ [CHR 0x27]"
| "demo_str (JArr xs) = ''['' @ py_join '', '' (map demo_str xs) @ '']''"
| "demo_str v = ''None''"

definition demo_prompts :: megamind where
  "demo_prompts =
     \<lparr>question_prompt = [Lit ''Original query: '', Field ''user_input''],
      synthesis_prompt = [Lit ''AGENT RESPONSES: '', Field ''agent_responses''],
      validation_prompt_1 = [Lit ''Accuracy. Query: '', Field ''original_query'',
                             Lit '' Draft: '', Field ''draft_answer''],
      validation_prompt_2 = [Lit ''Quality. Query: '', Field ''original_query'',
                             Lit '' Draft: '', Field ''draft_answer''],
      final_synthesis_prompt = [Field ''original_query'', Lit '' '', Field ''draft_answer'',
                                Lit '' '', Field ''validation_1'', Lit '' '',
                                Field ''validation_2'']\<rparr>"

definition or_done :: "string \<Rightarrow> or_request \<Rightarrow> string + or_response" where
  "or_done answer req =
     Inr \<lparr>choices = [\<lparr>am_content = Some answer,
                        am_tool_calls = Some [\<lparr>tc_id = ''call_1'', tc_name = ''mark_task_complete'',
                                               tc_arguments = ''{}''\<rparr>]\<rparr>]\<rparr>"

definition or_down :: "or_request \<Rightarrow> string + or_response" where
  "or_down req = Inl ''Connection error.''"

definition or_quiet :: "or_request \<Rightarrow> string + or_response" where
  "or_quiet req = Inr \<lparr>choices = [\<lparr>am_content = None, am_tool_calls = None\<rparr>]\<rparr>"

definition gm_done_then_search :: "gm_request \<Rightarrow> string + gm_response" where
  "gm_done_then_search req =
     Inr \<lparr>candidates =
            [\<lparr>gm_role = ''model'',
              gm_parts = Some [FunctionCallPart \<lparr>fc_name = ''mark_task_complete'', fc_args = None\<rparr>,
                               FunctionCallPart \<lparr>fc_name = ''search'',
                                                 fc_args = Some [(''query'', JStr ''x'')]\<rparr>]\<rparr>],
          response_text = None\<rparr>"

definition gm_empty :: "gm_request \<Rightarrow> string + gm_response" where
  "gm_empty req = Inr \<lparr>candidates = [], response_text = None\<rparr>"

definition gm_down :: "gm_request \<Rightarrow> string + gm_response" where
  "gm_down req = Inl ''Connection error.''"

definition demo_world ::
  "string \<Rightarrow> int \<Rightarrow> (or_request \<Rightarrow> string + or_response) \<Rightarrow>
   (gm_request \<Rightarrow> string + gm_response) \<Rightarrow> world" where
  "demo_world prov n orc gmc =
     \<lparr>cfg = \<lparr>provider = Some prov, system_prompt = ''You are a helpful agent.'',
              max_iterations_opt = Some n, openrouter_model = ''model-a'',
              gemini_model = ''model-b''\<rparr>,
      prompts = demo_prompts,
      installed_tools = demo_tools,
      or_client = orc, gm_client = gmc,
      json_loads = demo_loads, json_dumps = demo_dumps,
      b64decode = (\<lambda>s. Inr s), py_str = demo_str,
      elapsed = (\<lambda>aid. 1)\<rparr>"

definition demo_result :: "string \<Rightarrow> string \<Rightarrow> agent_result" where
  "demo_result aid r = \<lparr>agent_id = aid, status = ''success'', response = r, execution_time = 1\<rparr>"

section \<open>Merging the research results (stage 3)\<close>

lemma foldl_sections:
  "foldl (\<lambda>acc result. acc @ section_text result) acc rs = acc @ concat (map section_text rs)"
  by (induction rs arbitrary: acc) simp_all

text \<open>
  Claim C7, as amended. The block handed to the first synthesis lists the sections in
  the order of the result list it is given, which is the order in which the research
  tasks completed: it is the concatenation of one section per result, and the block of
  two lists put together is the two blocks put together. Nothing sorts the results into
  the order research, analysis, alternatives, verification.
\<close>

theorem C7_sections_in_input_order:
  "agent_responses_text rs = concat (map section_text rs) \<and>
   agent_responses_text (rs @ rs') = agent_responses_text rs @ agent_responses_text rs'"
  by (simp add: agent_responses_text_def foldl_sections)

text \<open>Claim C7 as stated fails: when analysis completes before research, its section
  comes first.\<close>

theorem C7_counterexample:
  "agent_responses_text [demo_result ''analysis'' ''A'', demo_result ''research'' ''R''] =
     ''=== ANALYSIS AGENT ==='' @ [CHR 0x0A] @ ''A'' @ [CHR 0x0A, CHR 0x0A] @
     ''=== RESEARCH AGENT ==='' @ [CHR 0x0A] @ ''R'' @ [CHR 0x0A, CHR 0x0A]"
  by code_simp

section \<open>The agent loop\<close>

declare agent_while.simps [simp del]

lemma add_text_frame [simp]:
  "offered (add_text c st) = offered st"
  "invoked (add_text c st) = invoked st"
  "conversation (add_text c st) = conversation st"
  by (auto simp: add_text_def split: option.splits)

lemma or_handle_tool_call_names:
  assumes "or_handle_tool_call w ag tc = (m, calls)"
  shows "set (map fst calls) \<subseteq> set (dict_keys (tool_mapping ag))"
proof (cases "map_of (tool_mapping ag) (tc_name tc)")
  case None
  with assms show ?thesis
    by (auto simp: or_handle_tool_call_def Let_def split: sum.splits)
next
  case (Some f)
  then have "tc_name tc \<in> set (dict_keys (tool_mapping ag))"
    by (auto simp: dict_keys_def dest!: map_of_SomeD intro: rev_image_eqI)
  with assms Some show ?thesis
    by (auto simp: or_handle_tool_call_def Let_def split: sum.splits)
qed

lemma or_tool_calls_frame:
  "or_tool_calls w ag tcs st = (b, st') \<Longrightarrow>
     offered st' = offered st \<and> full_response_content st' = full_response_content st"
proof (induction tcs arbitrary: st)
  case Nil
  then show ?case by simp
next
  case (Cons tc tcs)
  obtain m calls where h: "or_handle_tool_call w ag tc = (m, calls)" by force
  show ?case
  proof (cases "tc_name tc = sentinel")
    case True
    with Cons.prems h show ?thesis by (auto simp: Let_def)
  next
    case False
    let ?st = "st\<lparr>conversation := conversation st @ [m], invoked := invoked st @ calls\<rparr>"
    from Cons.prems h False have "or_tool_calls w ag tcs ?st = (b, st')" by (simp add: Let_def)
    from Cons.IH [OF this] show ?thesis by simp
  qed
qed

lemma or_tool_calls_names:
  "or_tool_calls w ag tcs st = (b, st') \<Longrightarrow>
     set (map fst (invoked st)) \<subseteq> K \<Longrightarrow> set (dict_keys (tool_mapping ag)) \<subseteq> K \<Longrightarrow>
     set (map fst (invoked st')) \<subseteq> K"
proof (induction tcs arbitrary: st)
  case Nil
  then show ?case by simp
next
  case (Cons tc tcs)
  obtain m calls where h: "or_handle_tool_call w ag tc = (m, calls)" by force
  from or_handle_tool_call_names [OF h] Cons.prems(3)
  have n: "set (map fst calls) \<subseteq> K" by blast
  let ?st = "st\<lparr>conversation := conversation st @ [m], invoked := invoked st @ calls\<rparr>"
  have k: "set (map fst (invoked ?st)) \<subseteq> K" using n Cons.prems(2) by simp
  show ?case
  proof (cases "tc_name tc = sentinel")
    case True
    with Cons.prems(1) h have "st' = ?st" by (simp add: Let_def)
    with k show ?thesis by simp
  next
    case False
    from Cons.prems(1) h False have "or_tool_calls w ag tcs ?st = (b, st')" by (simp add: Let_def)
    from Cons.IH [OF this k Cons.prems(3)] show ?thesis .
  qed
qed


lemma final_text_cases:
  "(if fs \<noteq> [] then py_join blank_line fs else ex) = py_join blank_line fs \<or>
   fs = [] \<and> (if fs \<noteq> [] then py_join blank_line fs else ex) = ex"
  by simp

lemma agent_while_invariant:
  "(\<And>s. P s \<Longrightarrow> P (ctl_state (turn s))) \<Longrightarrow> P st \<Longrightarrow>
   P (snd (agent_while turn ex m i st))"
proof (induction turn ex m i st rule: agent_while.induct)
  case (1 turn ex m i st)
  note step = "1.prems"(1)
  show ?case
  proof (cases "i < m")
    case False
    with "1.prems"(2) show ?thesis by (simp add: agent_while.simps [of turn ex m i st])
  next
    case True
    from step [OF "1.prems"(2)] have p: "P (ctl_state (turn st))" .
    show ?thesis
    proof (cases "turn st")
      case (Continue s)
      with p have "P s" by simp
      then have "P (snd (agent_while turn ex m (i + 1) s))"
        by (intro "1.IH" [OF True Continue] step)
      with True Continue show ?thesis
        by (simp add: agent_while.simps [of turn ex m i st])
    next
      case (Break s)
      with p True show ?thesis by (simp add: agent_while.simps [of turn ex m i st])
    next
      case (Return r s)
      with p True show ?thesis by (simp add: agent_while.simps [of turn ex m i st])
    next
      case (Raise e s)
      with p True show ?thesis by (simp add: agent_while.simps [of turn ex m i st])
    qed
  qed
qed

lemma agent_while_calls:
  "(\<And>s. offered (ctl_state (turn s)) = offered s @ [x]) \<Longrightarrow>
   (\<And>s r s'. turn s = Return r s' \<Longrightarrow> r = py_join blank_line (full_response_content s')) \<Longrightarrow>
   agent_while turn ex m i st = (res, st') \<Longrightarrow>
     \<exists>n. n \<le> nat (m - i) \<and> offered st' = offered st @ replicate n x \<and>
         (\<forall>r. res = Inr r \<longrightarrow>
            r = py_join blank_line (full_response_content st') \<or>
            (full_response_content st' = [] \<and> r = ex \<and>
             (n = nat (m - i) \<or> (\<exists>s. turn s = Break st'))))"
proof (induction turn ex m i st rule: agent_while.induct)
  case (1 turn ex m i st)
  note step = "1.prems"(1) and ret = "1.prems"(2) and run = "1.prems"(3)
  show ?case
  proof (cases "i < m")
    case False
    with run have r: "st' = st"
      "res = Inr (if full_response_content st \<noteq> []
                  then py_join blank_line (full_response_content st) else ex)"
      by (auto simp: agent_while.simps [of turn ex m i st])
    from False have z: "nat (m - i) = 0" by simp
    show ?thesis
      apply (rule exI [of _ 0])
      using r z final_text_cases [of "full_response_content st" ex]
      by auto
  next
    case True
    then have e: "nat (m - i) = Suc (nat (m - (i + 1)))" by simp
    from step [of st] have o: "offered (ctl_state (turn st)) = offered st @ [x]" .
    show ?thesis
    proof (cases "turn st")
      case (Continue s)
      with True run have "agent_while turn ex m (i + 1) s = (res, st')"
        by (simp add: agent_while.simps [of turn ex m i st])
      then have "\<exists>n. n \<le> nat (m - (i + 1)) \<and> offered st' = offered s @ replicate n x \<and>
         (\<forall>r. res = Inr r \<longrightarrow>
            r = py_join blank_line (full_response_content st') \<or>
            (full_response_content st' = [] \<and> r = ex \<and>
             (n = nat (m - (i + 1)) \<or> (\<exists>s. turn s = Break st'))))"
        by (intro "1.IH" [OF True Continue] step ret)
      then obtain n where
        n: "n \<le> nat (m - (i + 1))" "offered st' = offered s @ replicate n x"
           "\<forall>r. res = Inr r \<longrightarrow>
            r = py_join blank_line (full_response_content st') \<or>
            (full_response_content st' = [] \<and> r = ex \<and>
             (n = nat (m - (i + 1)) \<or> (\<exists>s. turn s = Break st')))"
        by blast
      from o Continue have o': "offered s = offered st @ [x]" by simp
      have "Suc n \<le> nat (m - i)" using n(1) e by simp
      moreover have "offered st' = offered st @ replicate (Suc n) x"
        using n(2) o' by simp
      moreover have "\<forall>r. res = Inr r \<longrightarrow>
            r = py_join blank_line (full_response_content st') \<or>
            (full_response_content st' = [] \<and> r = ex \<and>
             (Suc n = nat (m - i) \<or> (\<exists>s. turn s = Break st')))"
        using n(3) e by simp
      ultimately show ?thesis by blast
    next
      case (Break s)
      with True run have r: "st' = s"
        "res = Inr (if full_response_content s \<noteq> []
                    then py_join blank_line (full_response_content s) else ex)"
        by (auto simp: agent_while.simps [of turn ex m i st])
      from o Break have o': "offered s = offered st @ [x]" by simp
      have b: "\<exists>s'. turn s' = Break s" using Break by blast
      show ?thesis
        apply (rule exI [of _ 1])
        using r o' e b final_text_cases [of "full_response_content s" ex]
        by auto
    next
      case (Return r s)
      with True run have r: "res = Inr r" "st' = s"
        by (auto simp: agent_while.simps [of turn ex m i st])
      from o Return have o': "offered s = offered st @ [x]" by simp
      from ret [OF Return] have j: "r = py_join blank_line (full_response_content s)" .
      show ?thesis
        apply (rule exI [of _ 1])
        using r o' j e by simp
    next
      case (Raise y s)
      with True run have r: "res = Inl y" "st' = s"
        by (auto simp: agent_while.simps [of turn ex m i st])
      from o Raise have o': "offered s = offered st @ [x]" by simp
      show ?thesis
        apply (rule exI [of _ 1])
        using r o' e by simp
    qed
  qed
qed

section \<open>The completion tool (claim C5)\<close>

text \<open>The OpenRouter agent leaves the loop over the tool calls at the first call named
  as the completion tool: whatever is queued behind it plays no part.\<close>

lemma or_tool_calls_stop:
  "tc_name tc = sentinel \<Longrightarrow> sentinel \<notin> tc_name ` set pre \<Longrightarrow>
   or_tool_calls w ag (pre @ tc # post) st = or_tool_calls w ag (pre @ [tc]) st"
  by (induction pre arbitrary: st) (auto simp: Let_def split: prod.splits)

text \<open>
  Claim C5 at the Gemini agent: the provider asks in one turn for
  \<^verbatim>\<open>mark_task_complete\<close> and then for \<^verbatim>\<open>search\<close>. The run returns after that
  turn, and the search queued behind the completion tool has been called all the same.
\<close>

theorem C5_gemini_calls_after_sentinel:
  "run_invoked (run (demo_world ''gemini'' 10 or_down gm_done_then_search)
      (create_agent (demo_world ''gemini'' 10 or_down gm_done_then_search)) (JStr ''q'') None) =
     [(''mark_task_complete'', JObj []), (''search'', JObj [(''query'', JStr ''x'')])] \<and>
   length (run_offered (run (demo_world ''gemini'' 10 or_down gm_done_then_search)
      (create_agent (demo_world ''gemini'' 10 or_down gm_done_then_search)) (JStr ''q'') None)) = 1"
  by code_simp

section \<open>Termination and result of the agent loop (claim C6)\<close>

lemma assistant_texts_append:
  "assistant_texts (xs @ ys) = assistant_texts xs @ assistant_texts ys"
  by (induction xs rule: assistant_texts.induct) simp_all

lemma or_tool_calls_texts:
  "or_tool_calls w ag tcs st = (b, st') \<Longrightarrow>
     assistant_texts (conversation st') = assistant_texts (conversation st)"
proof (induction tcs arbitrary: st)
  case Nil
  then show ?case by simp
next
  case (Cons tc tcs)
  obtain m calls where h: "or_handle_tool_call w ag tc = (m, calls)" by force
  then have t: "assistant_texts [m] = []"
    by (auto simp: or_handle_tool_call_def Let_def split: sum.splits option.splits)
  let ?st = "st\<lparr>conversation := conversation st @ [m], invoked := invoked st @ calls\<rparr>"
  have c: "assistant_texts (conversation ?st) = assistant_texts (conversation st)"
    using t by (simp add: assistant_texts_append)
  show ?case
  proof (cases "tc_name tc = sentinel")
    case True
    with Cons.prems h have "st' = ?st" by (simp add: Let_def)
    with c show ?thesis by simp
  next
    case False
    from Cons.prems h False have "or_tool_calls w ag tcs ?st = (b, st')" by (simp add: Let_def)
    from Cons.IH [OF this] c show ?thesis by simp
  qed
qed

lemma or_turn_step:
  "offered (ctl_state (or_turn w ag st)) = offered st @ [agent_tools ag]"
  by (auto simp: or_turn_def Let_def simp del: or_tool_calls.simps
           split: sum.splits list.splits option.splits prod.splits bool.splits
           dest!: or_tool_calls_frame)

lemma or_turn_return:
  "or_turn w ag st = Return r st' \<Longrightarrow> r = py_join blank_line (full_response_content st')"
  by (auto simp: or_turn_def Let_def simp del: or_tool_calls.simps
           split: sum.splits list.splits option.splits prod.splits bool.splits)

lemma or_turn_no_break: "or_turn w ag st \<noteq> Break st'"
  by (auto simp: or_turn_def Let_def simp del: or_tool_calls.simps
           split: sum.splits list.splits option.splits prod.splits bool.splits)

lemma or_turn_texts:
  assumes "full_response_content st = assistant_texts (conversation st)"
  shows "full_response_content (ctl_state (or_turn w ag st)) =
         assistant_texts (conversation (ctl_state (or_turn w ag st)))"
proof -
  have *: "full_response_content s' = assistant_texts (conversation s')"
    if "or_tool_calls w ag tcs s = (b, s')"
       "full_response_content s = assistant_texts (conversation s)" for tcs s b s'
    using or_tool_calls_frame [OF that(1)] or_tool_calls_texts [OF that(1)] that(2) by simp
  have a': "full_response_content (add_text c (st\<lparr>offered := x,
        conversation := conversation st @ [AssistantMsg c tcs], replies := y\<rparr>)) =
     assistant_texts (conversation (add_text c (st\<lparr>offered := x,
        conversation := conversation st @ [AssistantMsg c tcs], replies := y\<rparr>)))" for c tcs x y
    using assms by (cases c) (simp_all add: add_text_def assistant_texts_append)
  show ?thesis
    using assms
    apply (simp add: or_turn_def Let_def del: or_tool_calls.simps
           split: sum.splits list.splits option.splits prod.splits bool.splits)
    using a' * by (auto simp del: or_tool_calls.simps)
qed

lemma gm_turn_step:
  "offered (ctl_state (gm_turn w ag st)) = offered st @ [agent_tools ag]"
  by (auto simp: gm_turn_def Let_def
           split: sum.splits list.splits option.splits prod.splits bool.splits)

lemma gm_turn_return:
  "gm_turn w ag st = Return r st' \<Longrightarrow> r = py_join blank_line (full_response_content st')"
  by (auto simp: gm_turn_def Let_def
           split: sum.splits list.splits option.splits prod.splits bool.splits if_splits)

lemma gm_turn_break:
  "gm_turn w ag st = Break st' \<Longrightarrow>
     \<exists>resp. gm_call_llm w ag (conversation st') = Inr resp \<and> candidates resp = []"
  by (auto simp: gm_turn_def Let_def
           split: sum.splits list.splits option.splits prod.splits bool.splits if_splits)

lemma add_text_replies [simp]: "replies (add_text c st) = replies st"
  by (auto simp: add_text_def split: option.splits)

lemma text_segments_append:
  "text_segments (xs @ ys) = text_segments xs @ text_segments ys"
  by (induction xs rule: text_segments.induct) simp_all

lemma or_signalled_append:
  "or_signalled (xs @ ys) \<longleftrightarrow> or_signalled xs \<or> or_signalled ys"
  by (induction xs rule: or_signalled.induct) auto

lemma gm_signalled_append:
  "gm_signalled (xs @ ys) \<longleftrightarrow> gm_signalled xs \<or> gm_signalled ys"
  by (simp add: gm_signalled_def)

lemma function_calls_of_append:
  "function_calls_of (xs @ ys) = function_calls_of xs @ function_calls_of ys"
  by (induction xs rule: function_calls_of.induct) simp_all

lemma or_handle_tool_call_msg:
  "or_handle_tool_call w ag tc = (m, calls) \<Longrightarrow> \<not> or_signalled [m]"
  by (auto simp: or_handle_tool_call_def Let_def split: sum.splits option.splits)

lemma or_tool_calls_signal:
  "or_tool_calls w ag tcs st = (b, st') \<Longrightarrow>
     (b \<longleftrightarrow> sentinel \<in> tc_name ` set tcs) \<and>
     or_signalled (conversation st') = or_signalled (conversation st) \<and>
     replies st' = replies st"
proof (induction tcs arbitrary: st)
  case Nil
  then show ?case by auto
next
  case (Cons tc tcs)
  obtain m calls where h: "or_handle_tool_call w ag tc = (m, calls)" by force
  let ?st = "st\<lparr>conversation := conversation st @ [m], invoked := invoked st @ calls\<rparr>"
  have c: "or_signalled (conversation ?st) = or_signalled (conversation st)"
    using or_handle_tool_call_msg [OF h] by (simp add: or_signalled_append)
  show ?case
  proof (cases "tc_name tc = sentinel")
    case True
    with Cons.prems h have "st' = ?st" "b" by (simp_all add: Let_def)
    with c True show ?thesis by simp
  next
    case False
    from Cons.prems h False have "or_tool_calls w ag tcs ?st = (b, st')" by (simp add: Let_def)
    from Cons.IH [OF this] c False show ?thesis by simp
  qed
qed

lemma gm_tool_calls_signal:
  "gm_tool_calls ag fcs (b, ps, cs) = (b', ps', cs') \<Longrightarrow>
     (b' \<longleftrightarrow> b \<or> sentinel \<in> fc_name ` set fcs) \<and>
     function_calls_of ps' = function_calls_of ps"
proof (induction fcs arbitrary: b ps cs)
  case Nil
  then show ?case by simp
next
  case (Cons fc fcs)
  obtain result called where h: "gm_handle_tool_call ag fc = (result, called)" by force
  from Cons.prems h have
    "gm_tool_calls ag fcs
       (b \<or> fc_name fc = sentinel,
        ps @ [FunctionResponsePart (fc_name fc) (JObj [(''result'', result)])],
        cs @ called) = (b', ps', cs')"
    by simp
  from Cons.IH [OF this] show ?case by (auto simp: function_calls_of_append)
qed

lemma gm_image_parts_calls:
  "gm_image_parts w imgs = Inr ps \<Longrightarrow> function_calls_of ps = []"
  by (induction imgs arbitrary: ps) (auto split: sum.splits)


lemma add_text_segments:
  "full_response_content st = text_segments (replies st) \<Longrightarrow>
   full_response_content (add_text c (st\<lparr>offered := x, conversation := y,
      replies := replies st @ [c]\<rparr>)) = text_segments (replies st @ [c])"
  by (cases c) (simp_all add: add_text_def text_segments_append)

lemma or_turn_replies:
  assumes "full_response_content st = text_segments (replies st)"
  shows "full_response_content (ctl_state (or_turn w ag st)) =
         text_segments (replies (ctl_state (or_turn w ag st)))"
proof -
  have *: "full_response_content s' = text_segments (replies s')"
    if "or_tool_calls w ag tcs s = (b, s')"
       "full_response_content s = text_segments (replies s)" for tcs s b s'
    using or_tool_calls_frame [OF that(1)] or_tool_calls_signal [OF that(1)] that(2) by simp
  note a = add_text_segments [OF assms]
  show ?thesis
    using assms
    apply (simp add: or_turn_def Let_def del: or_tool_calls.simps
           split: sum.splits list.splits option.splits prod.splits bool.splits)
    using a * by (auto simp del: or_tool_calls.simps)
qed

lemma or_turn_signal:
  "or_turn w ag st = Continue st' \<Longrightarrow>
     or_signalled (conversation st') = or_signalled (conversation st)"
  "or_turn w ag st = Return r st' \<Longrightarrow> or_signalled (conversation st')"
  by (auto simp: or_turn_def Let_def or_signalled_append simp del: or_tool_calls.simps
           split: sum.splits list.splits option.splits prod.splits bool.splits
           dest!: or_tool_calls_signal)

lemma gm_turn_replies:
  assumes "full_response_content st = text_segments (replies st)"
  shows "full_response_content (ctl_state (gm_turn w ag st)) =
         text_segments (replies (ctl_state (gm_turn w ag st)))"
  using assms add_text_segments [OF assms]
  by (auto simp: gm_turn_def Let_def
           split: sum.splits list.splits option.splits prod.splits bool.splits)

lemma gm_turn_signal:
  "gm_turn w ag st = Continue st' \<Longrightarrow>
     gm_signalled (conversation st') = gm_signalled (conversation st)"
  "gm_turn w ag st = Break st' \<Longrightarrow>
     gm_signalled (conversation st') = gm_signalled (conversation st)"
  "gm_turn w ag st = Return r st' \<Longrightarrow> gm_signalled (conversation st')"
  by (auto simp: gm_turn_def Let_def gm_signalled_append gm_signalled_def
           split: sum.splits list.splits option.splits prod.splits bool.splits if_splits
           dest!: gm_tool_calls_signal)

lemma agent_while_returns:
  "(\<And>s. length (offered (ctl_state (turn s))) = Suc (length (offered s))) \<Longrightarrow>
   (\<And>s s'. turn s = Continue s' \<Longrightarrow> sig s' = sig s) \<Longrightarrow>
   (\<And>s s'. turn s = Break s' \<Longrightarrow> sig s' = sig s) \<Longrightarrow>
   (\<And>s r s'. turn s = Return r s' \<Longrightarrow>
       sig s' \<and> r = py_join blank_line (full_response_content s')) \<Longrightarrow>
   \<not> sig st \<Longrightarrow>
   agent_while turn ex m i st = (Inr r, st') \<Longrightarrow>
     r = (if full_response_content st' = [] \<and> \<not> sig st' then ex
          else py_join blank_line (full_response_content st')) \<and>
     (\<not> sig st' \<longrightarrow>
        length (offered st') = length (offered st) + nat (m - i) \<or>
        (\<exists>s. turn s = Break st'))"
proof (induction turn ex m i st rule: agent_while.induct)
  case (1 turn ex m i st)
  note step = "1.prems"(1) and cont = "1.prems"(2) and brk = "1.prems"(3)
    and ret = "1.prems"(4) and nsig = "1.prems"(5) and run = "1.prems"(6)
  show ?case
  proof (cases "i < m")
    case False
    with run have r: "st' = st"
      "r = (if full_response_content st \<noteq> []
            then py_join blank_line (full_response_content st) else ex)"
      by (auto simp: agent_while.simps [of turn ex m i st])
    from False have z: "nat (m - i) = 0" by simp
    from r z nsig show ?thesis by simp
  next
    case True
    then have e: "nat (m - i) = Suc (nat (m - (i + 1)))" by simp
    from step [of st] have o: "length (offered (ctl_state (turn st))) = Suc (length (offered st))" .
    show ?thesis
    proof (cases "turn st")
      case (Continue s)
      with True run have w: "agent_while turn ex m (i + 1) s = (Inr r, st')"
        by (simp add: agent_while.simps [of turn ex m i st])
      from cont [OF Continue] nsig have n: "\<not> sig s" by simp
      have "r = (if full_response_content st' = [] \<and> \<not> sig st' then ex
                 else py_join blank_line (full_response_content st')) \<and>
            (\<not> sig st' \<longrightarrow>
               length (offered st') = length (offered s) + nat (m - (i + 1)) \<or>
               (\<exists>s. turn s = Break st'))"
        by (rule "1.IH" [OF True Continue step cont brk ret n w])
      moreover from o Continue have "length (offered s) = Suc (length (offered st))" by simp
      ultimately show ?thesis using e by simp
    next
      case (Break s)
      with True run have r: "st' = s"
        "r = (if full_response_content s \<noteq> []
              then py_join blank_line (full_response_content s) else ex)"
        by (auto simp: agent_while.simps [of turn ex m i st])
      have b: "\<exists>s'. turn s' = Break s" using Break by blast
      from brk [OF Break] nsig have "\<not> sig s" by simp
      with r b show ?thesis by simp
    next
      case (Return x s)
      with True run have r: "r = x" "st' = s"
        by (auto simp: agent_while.simps [of turn ex m i st])
      from ret [OF Return] r show ?thesis by simp
    next
      case (Raise y s)
      with True run show ?thesis by (simp add: agent_while.simps [of turn ex m i st])
    qed
  qed
qed


lemma gm_build_content_parts_calls:
  "gm_build_content_parts w u imgs = Inr ps \<Longrightarrow> function_calls_of ps = []"
  by (auto simp: gm_build_content_parts_def function_calls_of_append
           split: sum.splits dest: gm_image_parts_calls)

lemma or_run_returns:
  assumes "or_run w ag user_input images = (Inr r, st)"
  shows "r = (if full_response_content st = [] \<and> \<not> or_signalled (conversation st)
              then or_exhausted else py_join blank_line (full_response_content st))"
    and "\<not> or_signalled (conversation st) \<Longrightarrow> length (offered st) = nat (max_iterations w)"
proof -
  let ?st0 = "\<lparr>conversation = [SystemMsg (system_prompt (cfg w)),
                                 UserMsg (or_build_user_content user_input images)],
               full_response_content = [], offered = [], invoked = [], replies = []\<rparr>"
  from assms
  have w: "agent_while (or_turn w ag) or_exhausted (max_iterations w) 0 ?st0 = (Inr r, st)"
    by (simp add: or_run_def)
  have n: "\<not> or_signalled (conversation ?st0)" by simp
  have "r = (if full_response_content st = [] \<and> \<not> or_signalled (conversation st)
             then or_exhausted else py_join blank_line (full_response_content st)) \<and>
        (\<not> or_signalled (conversation st) \<longrightarrow>
           length (offered st) = length (offered ?st0) + nat (max_iterations w - 0) \<or>
           (\<exists>s. or_turn w ag s = Break st))"
  proof (rule agent_while_returns
      [where turn = "or_turn w ag" and sig = "\<lambda>s. or_signalled (conversation s)", OF _ _ _ _ n w])
    show "length (offered (ctl_state (or_turn w ag s))) = Suc (length (offered s))" for s
      by (simp add: or_turn_step)
    show "or_signalled (conversation s') = or_signalled (conversation s)"
      if "or_turn w ag s = Continue s'" for s s'
      using that by (rule or_turn_signal(1))
    show "or_signalled (conversation s') = or_signalled (conversation s)"
      if "or_turn w ag s = Break s'" for s s'
      using that or_turn_no_break by blast
    show "or_signalled (conversation s') \<and> x = py_join blank_line (full_response_content s')"
      if "or_turn w ag s = Return x s'" for s x s'
      using that or_turn_signal(2) or_turn_return by blast
  qed
  then show "r = (if full_response_content st = [] \<and> \<not> or_signalled (conversation st)
              then or_exhausted else py_join blank_line (full_response_content st))"
    and "\<not> or_signalled (conversation st) \<Longrightarrow> length (offered st) = nat (max_iterations w)"
    using or_turn_no_break by auto
qed

lemma gm_run_returns:
  assumes "gm_run w ag user_input images = (Inr r, st)"
  shows "r = (if full_response_content st = [] \<and> \<not> gm_signalled (conversation st)
              then gm_exhausted else py_join blank_line (full_response_content st))"
    and "\<not> gm_signalled (conversation st) \<Longrightarrow>
           length (offered st) = nat (max_iterations w) \<or>
           (\<exists>resp. gm_call_llm w ag (conversation st) = Inr resp \<and> candidates resp = [])"
proof -
  from assms obtain ps where ps: "gm_build_content_parts w user_input images = Inr ps"
    by (cases "gm_build_content_parts w user_input images") (auto simp: gm_run_def)
  let ?st0 = "\<lparr>conversation = [\<lparr>gm_role = ''user'', gm_parts = Some ps\<rparr>],
               full_response_content = [], offered = [], invoked = [], replies = []\<rparr>"
  from assms ps
  have w: "agent_while (gm_turn w ag) gm_exhausted (max_iterations w) 0 ?st0 = (Inr r, st)"
    by (simp add: gm_run_def)
  have n: "\<not> gm_signalled (conversation ?st0)"
    using gm_build_content_parts_calls [OF ps] by (simp add: gm_signalled_def)
  have "r = (if full_response_content st = [] \<and> \<not> gm_signalled (conversation st)
             then gm_exhausted else py_join blank_line (full_response_content st)) \<and>
        (\<not> gm_signalled (conversation st) \<longrightarrow>
           length (offered st) = length (offered ?st0) + nat (max_iterations w - 0) \<or>
           (\<exists>s. gm_turn w ag s = Break st))"
  proof (rule agent_while_returns
      [where turn = "gm_turn w ag" and sig = "\<lambda>s. gm_signalled (conversation s)", OF _ _ _ _ n w])
    show "length (offered (ctl_state (gm_turn w ag s))) = Suc (length (offered s))" for s
      by (simp add: gm_turn_step)
    show "gm_signalled (conversation s') = gm_signalled (conversation s)"
      if "gm_turn w ag s = Continue s'" for s s'
      using that by (rule gm_turn_signal(1))
    show "gm_signalled (conversation s') = gm_signalled (conversation s)"
      if "gm_turn w ag s = Break s'" for s s'
      using that by (rule gm_turn_signal(2))
    show "gm_signalled (conversation s') \<and> x = py_join blank_line (full_response_content s')"
      if "gm_turn w ag s = Return x s'" for s x s'
      using that gm_turn_signal(3) gm_turn_return by blast
  qed
  then show "r = (if full_response_content st = [] \<and> \<not> gm_signalled (conversation st)
              then gm_exhausted else py_join blank_line (full_response_content st))"
    and "\<not> gm_signalled (conversation st) \<Longrightarrow>
           length (offered st) = nat (max_iterations w) \<or>
           (\<exists>resp. gm_call_llm w ag (conversation st) = Inr resp \<and> candidates resp = [])"
    using gm_turn_break by (auto; blast)+
qed

lemma or_run_calls: "length (offered (snd (or_run w ag user_input images))) \<le> nat (max_iterations w)"
proof -
  let ?st0 = "\<lparr>conversation = [SystemMsg (system_prompt (cfg w)),
                                 UserMsg (or_build_user_content user_input images)],
               full_response_content = [], offered = [], invoked = [], replies = []\<rparr>"
  obtain res st where w: "agent_while (or_turn w ag) or_exhausted (max_iterations w) 0 ?st0 = (res, st)"
    by force
  have "\<exists>n. n \<le> nat (max_iterations w - 0) \<and>
      offered st = offered ?st0 @ replicate n (agent_tools ag) \<and>
      (\<forall>r. res = Inr r \<longrightarrow>
         r = py_join blank_line (full_response_content st) \<or>
         (full_response_content st = [] \<and> r = or_exhausted \<and>
          (n = nat (max_iterations w - 0) \<or> (\<exists>s. or_turn w ag s = Break st))))"
    by (rule agent_while_calls [where turn = "or_turn w ag", OF _ _ w])
       (rule or_turn_step, erule or_turn_return)
  then obtain n where "n \<le> nat (max_iterations w)" "offered st = replicate n (agent_tools ag)"
    by auto
  then have "length (offered st) \<le> nat (max_iterations w)" by simp
  with w show ?thesis by (simp add: or_run_def)
qed

lemma gm_run_calls: "length (offered (snd (gm_run w ag user_input images))) \<le> nat (max_iterations w)"
proof (cases "gm_build_content_parts w user_input images")
  case (Inl e)
  then show ?thesis by (simp add: gm_run_def)
next
  case (Inr ps)
  let ?st0 = "\<lparr>conversation = [\<lparr>gm_role = ''user'', gm_parts = Some ps\<rparr>],
               full_response_content = [], offered = [], invoked = [], replies = []\<rparr>"
  obtain res st where w: "agent_while (gm_turn w ag) gm_exhausted (max_iterations w) 0 ?st0 = (res, st)"
    by force
  have "\<exists>n. n \<le> nat (max_iterations w - 0) \<and>
      offered st = offered ?st0 @ replicate n (agent_tools ag) \<and>
      (\<forall>r. res = Inr r \<longrightarrow>
         r = py_join blank_line (full_response_content st) \<or>
         (full_response_content st = [] \<and> r = gm_exhausted \<and>
          (n = nat (max_iterations w - 0) \<or> (\<exists>s. gm_turn w ag s = Break st))))"
    by (rule agent_while_calls [where turn = "gm_turn w ag", OF _ _ w])
       (rule gm_turn_step, erule gm_turn_return)
  then obtain n where "n \<le> nat (max_iterations w)" "offered st = replicate n (agent_tools ag)"
    by auto
  then have "length (offered st) \<le> nat (max_iterations w)" by simp
  with w Inr show ?thesis by (simp add: gm_run_def)
qed

lemma or_run_texts:
  "full_response_content (snd (or_run w ag user_input images)) =
     assistant_texts (conversation (snd (or_run w ag user_input images)))"
  "full_response_content (snd (or_run w ag user_input images)) =
     text_segments (replies (snd (or_run w ag user_input images)))"
  unfolding or_run_def
  by (rule agent_while_invariant
          [where P = "\<lambda>s. full_response_content s = assistant_texts (conversation s)"],
      simp_all add: or_turn_texts,
      rule agent_while_invariant
          [where P = "\<lambda>s. full_response_content s = text_segments (replies s)"],
      simp_all add: or_turn_replies)

lemma gm_run_texts:
  "full_response_content (snd (gm_run w ag user_input images)) =
     text_segments (replies (snd (gm_run w ag user_input images)))"
proof (cases "gm_build_content_parts w user_input images")
  case (Inl e)
  then show ?thesis by (simp add: gm_run_def)
next
  case (Inr ps)
  let ?st0 = "\<lparr>conversation = [\<lparr>gm_role = ''user'', gm_parts = Some ps\<rparr>],
               full_response_content = [], offered = [], invoked = [], replies = []\<rparr>"
  have "full_response_content (snd (agent_while (gm_turn w ag) gm_exhausted (max_iterations w) 0 ?st0)) =
        text_segments (replies (snd (agent_while (gm_turn w ag) gm_exhausted (max_iterations w) 0 ?st0)))"
    by (rule agent_while_invariant
          [where P = "\<lambda>s. full_response_content s = text_segments (replies s)"])
       (simp_all add: gm_turn_replies)
  with Inr show ?thesis by (simp add: gm_run_def)
qed

text \<open>
  Claim C6, as amended. A run of either agent calls the provider at most
  \<open>max_iterations\<close> times (never, when that is not positive): \<open>offered\<close> has one
  entry per call. The texts it accumulates are the text segments of the responses it
  read, in turn order (for the OpenRouter agent, the non-empty texts of the assistant
  messages of the conversation). What it returns is these texts joined by a blank line,
  except when no text was accumulated and no response asked for the completion tool:
  then it returns the agent's exhausted message. A run that returns without a completion
  signal has reached the cap or, for the Gemini agent, has received a response without
  candidates, which ends the loop at once.
\<close>

theorem C6_agent_loop:
  "(or_run w ag user_input images = (res, st) \<longrightarrow>
      length (offered st) \<le> nat (max_iterations w) \<and>
      full_response_content st = assistant_texts (conversation st) \<and>
      full_response_content st = text_segments (replies st) \<and>
      (\<forall>r. res = Inr r \<longrightarrow>
         r = (if full_response_content st = [] \<and> \<not> or_signalled (conversation st)
              then or_exhausted else py_join blank_line (full_response_content st)) \<and>
         (\<not> or_signalled (conversation st) \<longrightarrow>
            length (offered st) = nat (max_iterations w)))) \<and>
   (gm_run w ag user_input images = (res', st') \<longrightarrow>
      length (offered st') \<le> nat (max_iterations w) \<and>
      full_response_content st' = text_segments (replies st') \<and>
      (\<forall>r. res' = Inr r \<longrightarrow>
         r = (if full_response_content st' = [] \<and> \<not> gm_signalled (conversation st')
              then gm_exhausted else py_join blank_line (full_response_content st')) \<and>
         (\<not> gm_signalled (conversation st') \<longrightarrow>
            length (offered st') = nat (max_iterations w) \<or>
            (\<exists>resp. gm_call_llm w ag (conversation st') = Inr resp \<and> candidates resp = []))))"
proof (intro conjI impI allI)
  assume run: "or_run w ag user_input images = (res, st)"
  then have s: "st = snd (or_run w ag user_input images)" by simp
  show "length (offered st) \<le> nat (max_iterations w)" unfolding s by (rule or_run_calls)
  show "full_response_content st = assistant_texts (conversation st)"
    unfolding s by (rule or_run_texts(1))
  show "full_response_content st = text_segments (replies st)"
    unfolding s by (rule or_run_texts(2))
  fix r assume "res = Inr r"
  with run have r: "or_run w ag user_input images = (Inr r, st)" by simp
  show "r = (if full_response_content st = [] \<and> \<not> or_signalled (conversation st)
              then or_exhausted else py_join blank_line (full_response_content st))"
    by (rule or_run_returns(1) [OF r])
  show "length (offered st) = nat (max_iterations w)" if "\<not> or_signalled (conversation st)"
    using r that by (rule or_run_returns(2))
next
  assume run: "gm_run w ag user_input images = (res', st')"
  then have s: "st' = snd (gm_run w ag user_input images)" by simp
  show "length (offered st') \<le> nat (max_iterations w)" unfolding s by (rule gm_run_calls)
  show "full_response_content st' = text_segments (replies st')"
    unfolding s by (rule gm_run_texts)
  fix r assume "res' = Inr r"
  with run have r: "gm_run w ag user_input images = (Inr r, st')" by simp
  show "r = (if full_response_content st' = [] \<and> \<not> gm_signalled (conversation st')
              then gm_exhausted else py_join blank_line (full_response_content st'))"
    by (rule gm_run_returns(1) [OF r])
  show "length (offered st') = nat (max_iterations w) \<or>
        (\<exists>resp. gm_call_llm w ag (conversation st') = Inr resp \<and> candidates resp = [])"
    if "\<not> gm_signalled (conversation st')"
    using r that by (rule gm_run_returns(2))
qed

text \<open>A provider that never asks for a tool and never says anything: ten calls, then the
  exhausted message.\<close>

theorem C6_witness:
  "or_run (demo_world ''openrouter'' 10 or_quiet gm_down)
      (create_agent (demo_world ''openrouter'' 10 or_quiet gm_down)) (JStr ''q'') None =
     (Inr or_exhausted,
      snd (or_run (demo_world ''openrouter'' 10 or_quiet gm_down)
        (create_agent (demo_world ''openrouter'' 10 or_quiet gm_down)) (JStr ''q'') None)) \<and>
   \<not> or_signalled (conversation (snd (or_run (demo_world ''openrouter'' 10 or_quiet gm_down)
        (create_agent (demo_world ''openrouter'' 10 or_quiet gm_down)) (JStr ''q'') None))) \<and>
   length (offered (snd (or_run (demo_world ''openrouter'' 10 or_quiet gm_down)
        (create_agent (demo_world ''openrouter'' 10 or_quiet gm_down)) (JStr ''q'') None))) = 10"
proof -
  let ?w = "demo_world ''openrouter'' 10 or_quiet gm_down"
  let ?r = "or_run ?w (create_agent ?w) (JStr ''q'') None"
  have f: "fst ?r = Inr or_exhausted" by code_simp
  have m: "nat (max_iterations ?w) = 10" by code_simp
  have g: "\<not> or_signalled (conversation (snd ?r))" by code_simp
  have p: "?r = (fst ?r, snd ?r)" by simp
  from C6_agent_loop [where w = ?w and ag = "create_agent ?w" and user_input = "JStr ''q''"
        and images = None and res = "fst ?r" and st = "snd ?r", THEN conjunct1, THEN mp, OF p]
  have "\<forall>r. fst ?r = Inr r \<longrightarrow>
         r = (if full_response_content (snd ?r) = [] \<and> \<not> or_signalled (conversation (snd ?r))
              then or_exhausted else py_join blank_line (full_response_content (snd ?r))) \<and>
         (\<not> or_signalled (conversation (snd ?r)) \<longrightarrow>
            length (offered (snd ?r)) = nat (max_iterations ?w))" by blast
  with f g have "length (offered (snd ?r)) = nat (max_iterations ?w)" by blast
  with m f g show ?thesis by (simp add: prod_eq_iff)
qed

text \<open>Claim C6 as stated fails at the Gemini agent: a first response without candidates
  ends the run with the exhausted message after one call of ten, although the cap was
  not reached and the concatenation of the accumulated texts is the empty string.\<close>

theorem C6_counterexample:
  "fst (gm_run (demo_world ''gemini'' 10 or_down gm_empty)
      (create_agent (demo_world ''gemini'' 10 or_down gm_empty)) (JStr ''q'') None) =
     Inr ''Maximum iterations reached.'' \<and>
   full_response_content (snd (gm_run (demo_world ''gemini'' 10 or_down gm_empty)
      (create_agent (demo_world ''gemini'' 10 or_down gm_empty)) (JStr ''q'') None)) = [] \<and>
   length (offered (snd (gm_run (demo_world ''gemini'' 10 or_down gm_empty)
      (create_agent (demo_world ''gemini'' 10 or_down gm_empty)) (JStr ''q'') None))) = 1 \<and>
   max_iterations (demo_world ''gemini'' 10 or_down gm_empty) = 10"
  by code_simp

section \<open>What a run offers to the provider and which tools it calls\<close>

lemma names_ball: "set (map fst cs) \<subseteq> K \<longleftrightarrow> (\<forall>c\<in>set cs. fst c \<in> K)"
  by auto

lemma or_turn_names:
  assumes "\<forall>c\<in>set (invoked st). fst c \<in> K" and "set (dict_keys (tool_mapping ag)) \<subseteq> K"
  shows "\<forall>c\<in>set (invoked (ctl_state (or_turn w ag st))). fst c \<in> K"
proof -
  have *: "\<forall>c\<in>set (invoked s'). fst c \<in> K"
    if "or_tool_calls w ag tcs (add_text x s) = (b, s')" "invoked s = invoked st"
    for tcs x s b s'
  proof -
    have "set (map fst (invoked (add_text x s))) \<subseteq> K"
      using that(2) assms(1) by auto
    from or_tool_calls_names [OF that(1) this assms(2)] show ?thesis
      by (simp only: names_ball)
  qed
  show ?thesis
    using assms(1)
    by (auto simp: or_turn_def Let_def simp del: or_tool_calls.simps
           split: sum.splits list.splits option.splits prod.splits bool.splits
           dest!: *)
qed

lemma gm_handle_tool_call_names:
  assumes "gm_handle_tool_call ag fc = (r, calls)"
  shows "set (map fst calls) \<subseteq> set (dict_keys (tool_mapping ag))"
proof (cases "map_of (tool_mapping ag) (fc_name fc)")
  case None
  with assms show ?thesis by (auto simp: gm_handle_tool_call_def Let_def)
next
  case (Some f)
  then have "fc_name fc \<in> set (dict_keys (tool_mapping ag))"
    by (auto simp: dict_keys_def dest!: map_of_SomeD intro: rev_image_eqI)
  with assms Some show ?thesis
    by (auto simp: gm_handle_tool_call_def Let_def split: sum.splits)
qed

lemma gm_tool_calls_names:
  "gm_tool_calls ag fcs (b, ps, cs) = (b', ps', cs') \<Longrightarrow>
   set (map fst cs) \<subseteq> K \<Longrightarrow> set (dict_keys (tool_mapping ag)) \<subseteq> K \<Longrightarrow>
   set (map fst cs') \<subseteq> K"
proof (induction fcs arbitrary: b ps cs)
  case Nil
  then show ?case by simp
next
  case (Cons fc fcs)
  obtain r called where h: "gm_handle_tool_call ag fc = (r, called)" by force
  from gm_handle_tool_call_names [OF h] Cons.prems(3) have "set (map fst called) \<subseteq> K" by blast
  with Cons.prems(2) have k: "set (map fst (cs @ called)) \<subseteq> K" by simp
  from Cons.prems(1) h have
    "gm_tool_calls ag fcs (b \<or> fc_name fc = sentinel,
       ps @ [FunctionResponsePart (fc_name fc) (JObj [(''result'', r)])], cs @ called) = (b', ps', cs')"
    by simp
  from Cons.IH [OF this k Cons.prems(3)] show ?case .
qed

lemma gm_turn_names:
  assumes "\<forall>c\<in>set (invoked st). fst c \<in> K" and "set (dict_keys (tool_mapping ag)) \<subseteq> K"
  shows "\<forall>c\<in>set (invoked (ctl_state (gm_turn w ag st))). fst c \<in> K"
proof -
  have *: "\<forall>c\<in>set cs'. fst c \<in> K" if "gm_tool_calls ag fcs (False, [], []) = (b', ps', cs')"
    for fcs b' ps' cs'
    using gm_tool_calls_names [OF that _ assms(2)] by auto
  show ?thesis
    using assms(1)
    by (auto simp: gm_turn_def Let_def
           split: sum.splits list.splits option.splits prod.splits bool.splits
           dest!: *)
qed

lemma run_logs:
  "run_offered (run w ag u imgs) =
     (case agent_class ag of
        OpenRouterAgent \<Rightarrow> offered (snd (or_run w ag u imgs))
      | GeminiAgent \<Rightarrow> offered (snd (gm_run w ag u imgs)))"
  "run_invoked (run w ag u imgs) =
     (case agent_class ag of
        OpenRouterAgent \<Rightarrow> invoked (snd (or_run w ag u imgs))
      | GeminiAgent \<Rightarrow> invoked (snd (gm_run w ag u imgs)))"
  "outcome (run w ag u imgs) =
     (case agent_class ag of
        OpenRouterAgent \<Rightarrow> fst (or_run w ag u imgs)
      | GeminiAgent \<Rightarrow> fst (gm_run w ag u imgs))"
  by (simp_all add: run_def split: prod.splits agent_class.splits)

lemma agent_while_offered_all:
  assumes "\<And>s. offered (ctl_state (turn s)) = offered s @ [x]"
    and "offered st = []"
  shows "\<forall>ss\<in>set (offered (snd (agent_while turn ex m i st))). ss = x"
proof (rule agent_while_invariant [where P = "\<lambda>s. \<forall>ss\<in>set (offered s). ss = x"])
  show "\<forall>ss\<in>set (offered (ctl_state (turn s))). ss = x" if "\<forall>ss\<in>set (offered s). ss = x" for s
    using that by (simp add: assms(1))
  show "\<forall>ss\<in>set (offered st). ss = x" by (simp add: assms(2))
qed

lemma agent_while_names:
  assumes "\<And>s. \<forall>c\<in>set (invoked s). fst c \<in> K \<Longrightarrow>
                \<forall>c\<in>set (invoked (ctl_state (turn s))). fst c \<in> K"
    and "invoked st = []"
  shows "\<forall>c\<in>set (invoked (snd (agent_while turn ex m i st))). fst c \<in> K"
proof (rule agent_while_invariant [where P = "\<lambda>s. \<forall>c\<in>set (invoked s). fst c \<in> K"])
  show "\<forall>c\<in>set (invoked (ctl_state (turn s))). fst c \<in> K"
    if "\<forall>c\<in>set (invoked s). fst c \<in> K" for s
    using that by (rule assms(1))
  show "\<forall>c\<in>set (invoked st). fst c \<in> K" by (simp add: assms(2))
qed

lemma or_run_logs:
  "\<forall>ss\<in>set (offered (snd (or_run w ag u imgs))). ss = agent_tools ag"
  "\<forall>c\<in>set (invoked (snd (or_run w ag u imgs))). fst c \<in> set (dict_keys (tool_mapping ag))"
proof -
  show "\<forall>ss\<in>set (offered (snd (or_run w ag u imgs))). ss = agent_tools ag"
    unfolding or_run_def by (rule agent_while_offered_all) (simp_all add: or_turn_step)
  show "\<forall>c\<in>set (invoked (snd (or_run w ag u imgs))). fst c \<in> set (dict_keys (tool_mapping ag))"
    unfolding or_run_def
  proof (rule agent_while_names)
    show "\<forall>c\<in>set (invoked (ctl_state (or_turn w ag s))). fst c \<in> set (dict_keys (tool_mapping ag))"
      if "\<forall>c\<in>set (invoked s). fst c \<in> set (dict_keys (tool_mapping ag))" for s
      using that subset_refl by (rule or_turn_names)
  qed simp
qed

lemma gm_run_logs:
  "\<forall>ss\<in>set (offered (snd (gm_run w ag u imgs))). ss = agent_tools ag"
  "\<forall>c\<in>set (invoked (snd (gm_run w ag u imgs))). fst c \<in> set (dict_keys (tool_mapping ag))"
proof -
  show "\<forall>ss\<in>set (offered (snd (gm_run w ag u imgs))). ss = agent_tools ag"
  proof (cases "gm_build_content_parts w u imgs")
    case (Inl e)
    then show ?thesis by (simp add: gm_run_def)
  next
    case (Inr ps)
    have "\<forall>ss\<in>set (offered (snd (agent_while (gm_turn w ag) gm_exhausted (max_iterations w) 0
            \<lparr>conversation = [\<lparr>gm_role = ''user'', gm_parts = Some ps\<rparr>],
             full_response_content = [], offered = [], invoked = [], replies = []\<rparr>))). ss = agent_tools ag"
      by (rule agent_while_offered_all) (simp_all add: gm_turn_step)
    with Inr show ?thesis by (simp add: gm_run_def)
  qed
  show "\<forall>c\<in>set (invoked (snd (gm_run w ag u imgs))). fst c \<in> set (dict_keys (tool_mapping ag))"
  proof (cases "gm_build_content_parts w u imgs")
    case (Inl e)
    then show ?thesis by (simp add: gm_run_def)
  next
    case (Inr ps)
    have "\<forall>c\<in>set (invoked (snd (agent_while (gm_turn w ag) gm_exhausted (max_iterations w) 0
            \<lparr>conversation = [\<lparr>gm_role = ''user'', gm_parts = Some ps\<rparr>],
             full_response_content = [], offered = [], invoked = [], replies = []\<rparr>))).
            fst c \<in> set (dict_keys (tool_mapping ag))"
    proof (rule agent_while_names)
      show "\<forall>c\<in>set (invoked (ctl_state (gm_turn w ag s))). fst c \<in> set (dict_keys (tool_mapping ag))"
        if "\<forall>c\<in>set (invoked s). fst c \<in> set (dict_keys (tool_mapping ag))" for s
        using that subset_refl by (rule gm_turn_names)
    qed simp
    with Inr show ?thesis by (simp add: gm_run_def)
  qed
qed

lemma run_offered_tools:
  "\<forall>ss\<in>set (run_offered (run w ag u imgs)). ss = agent_tools ag"
  using or_run_logs(1) gm_run_logs(1) by (cases "agent_class ag") (simp_all add: run_logs)

lemma run_invoked_names:
  "\<forall>c\<in>set (run_invoked (run w ag u imgs)). fst c \<in> set (dict_keys (tool_mapping ag))"
  using or_run_logs(2) gm_run_logs(2) by (cases "agent_class ag") (simp_all add: run_logs)

section \<open>Removed tools (claim C9)\<close>

lemma dict_set_keyed:
  "list_all (\<lambda>(n, tl). tool_name tl = n) d \<Longrightarrow>
   list_all (\<lambda>(n, tl). tool_name tl = n) (dict_set (tool_name t) t d)"
  by (induction d) auto

lemma discover_tools_keyed_aux:
  "list_all (\<lambda>(n, tl). tool_name tl = n) d \<Longrightarrow>
   list_all (\<lambda>(n, tl). tool_name tl = n) (foldl (\<lambda>d t. dict_set (tool_name t) t d) d found)"
  by (induction found arbitrary: d) (simp_all add: dict_set_keyed)

lemma create_agent_keyed: "keyed_by_name (create_agent w)"
  using discover_tools_keyed_aux [of "[]"]
  by (simp add: keyed_by_name_def create_agent_def discover_tools_def Let_def)

lemma remove_tool_keyed: "keyed_by_name ag \<Longrightarrow> keyed_by_name (remove_tool t ag)"
  by (auto simp: keyed_by_name_def remove_tool_def or_remove_tool_def gm_remove_tool_def Let_def
        list_all_iff split: agent_class.splits)

lemma remove_tool_mapping:
  "tool_mapping (remove_tool t ag) = filter (\<lambda>(n, f). n \<noteq> t) (tool_mapping ag)"
  by (simp add: remove_tool_def or_remove_tool_def gm_remove_tool_def Let_def
        split: agent_class.splits)

lemma remove_tool_keys:
  "dict_keys (tool_mapping (remove_tool t ag)) = filter (\<lambda>n. n \<noteq> t) (dict_keys (tool_mapping ag))"
  by (simp add: remove_tool_mapping dict_keys_def filter_map comp_def case_prod_unfold)

lemma remove_tool_lookup: "map_of (tool_mapping (remove_tool t ag)) t = None"
  by (simp add: remove_tool_mapping map_of_eq_None_iff image_iff)

lemma remove_tool_schemas:
  assumes "agent_class ag = GeminiAgent \<longrightarrow> keyed_by_name ag"
  shows "t \<notin> set (map schema_name (agent_tools (remove_tool t ag)))"
proof (cases "agent_class ag")
  case OpenRouterAgent
  then show ?thesis by (auto simp: remove_tool_def or_remove_tool_def)
next
  case GeminiAgent
  with assms have "keyed_by_name ag" by simp
  with GeminiAgent show ?thesis
    by (auto simp: remove_tool_def gm_remove_tool_def Let_def keyed_by_name_def list_all_iff
          to_openrouter_schema_def)
qed

text \<open>
  Claim C9, as amended. After \<^verbatim>\<open>remove_tool(t)\<close> (for the Gemini agent, on a registry
  keyed by the tools' names, as every created agent has it) the name \<open>t\<close> is in no
  schema the agent holds and is no key of its \<^verbatim>\<open>tool_mapping\<close>; a run of that agent
  offers \<open>t\<close> to the provider at no call and never calls the function of \<open>t\<close>; and a
  call of \<open>t\<close> that the provider asks for all the same is answered with an error
  payload and calls nothing: the unknown-tool payload, except that the OpenRouter agent
  parses the arguments first and answers unparsable arguments with the
  tool-execution-failed payload.
\<close>

theorem C9_removed_tool:
  assumes "agent_class ag = GeminiAgent \<longrightarrow> keyed_by_name ag"
  shows "t \<notin> set (map schema_name (agent_tools (remove_tool t ag))) \<and>
     t \<notin> set (dict_keys (tool_mapping (remove_tool t ag))) \<and>
     (\<forall>ss\<in>set (run_offered (run w (remove_tool t ag) u imgs)). t \<notin> set (map schema_name ss)) \<and>
     t \<notin> set (map fst (run_invoked (run w (remove_tool t ag) u imgs))) \<and>
     (\<forall>tc. tc_name tc = t \<longrightarrow>
        or_handle_tool_call w (remove_tool t ag) tc =
          (ToolMsg (tc_id tc) t
             (json_dumps w (error_payload
                (case json_loads w (tc_arguments tc) of
                   Inl e \<Rightarrow> ''Tool execution failed: '' @ str_exc e
                 | Inr args \<Rightarrow> ''Unknown tool: '' @ t))), [])) \<and>
     (\<forall>fc. fc_name fc = t \<longrightarrow>
        gm_handle_tool_call (remove_tool t ag) fc = (error_payload (''Unknown tool: '' @ t), []))"
proof -
  let ?ag = "remove_tool t ag"
  have s: "t \<notin> set (map schema_name (agent_tools ?ag))" by (rule remove_tool_schemas [OF assms])
  have k: "t \<notin> set (dict_keys (tool_mapping ?ag))" by (simp add: remove_tool_keys)
  have o: "\<forall>ss\<in>set (run_offered (run w ?ag u imgs)). t \<notin> set (map schema_name ss)"
    using run_offered_tools [of w ?ag u imgs] s by auto
  have i: "t \<notin> set (map fst (run_invoked (run w ?ag u imgs)))"
    using run_invoked_names [of w ?ag u imgs] k by auto
  have h: "\<forall>tc. tc_name tc = t \<longrightarrow>
        or_handle_tool_call w ?ag tc =
          (ToolMsg (tc_id tc) t
             (json_dumps w (error_payload
                (case json_loads w (tc_arguments tc) of
                   Inl e \<Rightarrow> ''Tool execution failed: '' @ str_exc e
                 | Inr args \<Rightarrow> ''Unknown tool: '' @ t))), [])"
    by (auto simp: or_handle_tool_call_def Let_def remove_tool_lookup split: sum.splits)
  have g: "\<forall>fc. fc_name fc = t \<longrightarrow>
        gm_handle_tool_call ?ag fc = (error_payload (''Unknown tool: '' @ t), [])"
    by (auto simp: gm_handle_tool_call_def Let_def remove_tool_lookup)
  from s k o i h g show ?thesis by blast
qed

text \<open>A Gemini agent without \<^verbatim>\<open>search\<close>, asked by the provider to search: only the
  completion tool is called.\<close>

theorem C9_witness:
  "(agent_class (create_agent (demo_world ''gemini'' 10 or_down gm_done_then_search)) = GeminiAgent \<and>
    keyed_by_name (create_agent (demo_world ''gemini'' 10 or_down gm_done_then_search))) \<and>
   ''search'' \<notin> set (map fst (run_invoked
      (run (demo_world ''gemini'' 10 or_down gm_done_then_search)
         (remove_tool ''search'' (create_agent (demo_world ''gemini'' 10 or_down gm_done_then_search)))
         (JStr ''q'') None))) \<and>
   run_invoked
      (run (demo_world ''gemini'' 10 or_down gm_done_then_search)
         (remove_tool ''search'' (create_agent (demo_world ''gemini'' 10 or_down gm_done_then_search)))
         (JStr ''q'') None) = [(''mark_task_complete'', JObj [])]"
proof -
  let ?w = "demo_world ''gemini'' 10 or_down gm_done_then_search"
  have c: "agent_class (create_agent ?w) = GeminiAgent" by code_simp
  have k: "keyed_by_name (create_agent ?w)" by code_simp
  have r: "run_invoked (run ?w (remove_tool ''search'' (create_agent ?w)) (JStr ''q'') None) =
             [(''mark_task_complete'', JObj [])]" by code_simp
  from k have h: "agent_class (create_agent ?w) = GeminiAgent \<longrightarrow> keyed_by_name (create_agent ?w)"
    by simp
  from C9_removed_tool [OF h, of "''search''" ?w "JStr ''q''" None]
  have "''search'' \<notin> set (map fst (run_invoked
      (run ?w (remove_tool ''search'' (create_agent ?w)) (JStr ''q'') None)))" by blast
  with c k r show ?thesis by blast
qed

text \<open>Claim C9 as stated fails in the payload: for a removed tool called with arguments
  that are not JSON, the OpenRouter agent answers "Tool execution failed", not
  "Unknown tool".\<close>

theorem C9_counterexample:
  "fst (or_handle_tool_call (demo_world ''openrouter'' 10 or_down gm_down)
      (remove_tool ''search'' (create_agent (demo_world ''openrouter'' 10 or_down gm_down)))
      \<lparr>tc_id = ''call_1'', tc_name = ''search'', tc_arguments = ''not json''\<rparr>) =
     ToolMsg ''call_1'' ''search''
       (demo_dumps (error_payload
          ''Tool execution failed: Expecting value: line 1 column 1 (char 0)'')) \<and>
   demo_dumps (error_payload ''Tool execution failed: Expecting value: line 1 column 1 (char 0)'') \<noteq>
   demo_dumps (error_payload ''Unknown tool: search'')"
  by code_simp

section \<open>Question generation (claims C3 and C4)\<close>

lemma agent_while_raise:
  "agent_while turn ex m i st = (Inl e, st') \<Longrightarrow> \<exists>s. turn s = Raise e st'"
proof (induction turn ex m i st rule: agent_while.induct)
  case (1 turn ex m i st)
  show ?case
  proof (cases "i < m")
    case False
    with "1.prems" show ?thesis by (simp add: agent_while.simps [of turn ex m i st])
  next
    case True
    show ?thesis
    proof (cases "turn st")
      case (Continue s)
      with True "1.prems" have "agent_while turn ex m (i + 1) s = (Inl e, st')"
        by (simp add: agent_while.simps [of turn ex m i st])
      from "1.IH" [OF True Continue this] show ?thesis .
    next
      case (Break s)
      with True "1.prems" show ?thesis by (simp add: agent_while.simps [of turn ex m i st])
    next
      case (Return r s)
      with True "1.prems" show ?thesis by (simp add: agent_while.simps [of turn ex m i st])
    next
      case (Raise x s)
      with True "1.prems" have "x = e" "s = st'"
        by (simp_all add: agent_while.simps [of turn ex m i st])
      with Raise show ?thesis by blast
    qed
  qed
qed

lemma or_turn_raise: "or_turn w ag st = Raise e st' \<Longrightarrow> \<not> is_value_error e"
  by (auto simp: or_turn_def or_call_llm_def Let_def simp del: or_tool_calls.simps
           split: sum.splits list.splits option.splits prod.splits bool.splits)

lemma gm_turn_raise: "gm_turn w ag st = Raise e st' \<Longrightarrow> \<not> is_value_error e"
  by (auto simp: gm_turn_def gm_call_llm_def Let_def
           split: sum.splits list.splits option.splits prod.splits bool.splits if_splits)

lemma run_raise: "outcome (run w ag u None) = Inl e \<Longrightarrow> \<not> is_value_error e"
proof (cases "agent_class ag")
  case OpenRouterAgent
  assume "outcome (run w ag u None) = Inl e"
  with OpenRouterAgent have "fst (or_run w ag u None) = Inl e" by (simp add: run_logs)
  then obtain st' where "or_run w ag u None = (Inl e, st')" by (cases "or_run w ag u None") auto
  then have "\<exists>s. or_turn w ag s = Raise e st'"
    unfolding or_run_def by (rule agent_while_raise)
  then show ?thesis using or_turn_raise by blast
next
  case GeminiAgent
  assume "outcome (run w ag u None) = Inl e"
  with GeminiAgent have "fst (gm_run w ag u None) = Inl e" by (simp add: run_logs)
  then obtain st' where r: "gm_run w ag u None = (Inl e, st')" by (cases "gm_run w ag u None") auto
  have p: "gm_build_content_parts w u None = Inr [TextPart u]"
    by (simp add: gm_build_content_parts_def)
  from r have "\<exists>s. gm_turn w ag s = Raise e st'"
    unfolding gm_run_def p by simp (rule agent_while_raise)
  then show ?thesis using gm_turn_raise by blast
qed

lemma generate_questions_result:
  assumes "format_template (question_prompt (prompts w)) [(''user_input'', q)] = Inr prompt"
  shows "fst (generate_questions w q) =
     (case parse_questions w
             (outcome (run w (remove_tool ''mark_task_complete'' (create_agent w)) (JStr prompt) None)) of
        Inr (r, qs) \<Rightarrow> Inr qs
      | Inl e \<Rightarrow> if is_value_error e then Inr (JArr (map JStr (fallback_questions q))) else Inl e)"
  using assms
  by (simp add: generate_questions_def run_logged_def Let_def split: sum.splits prod.splits)

text \<open>What \<^verbatim>\<open>except (json.JSONDecodeError, ValueError)\<close> does not catch leaves
  \<^verbatim>\<open>generate_questions\<close>: any other exception of \<^verbatim>\<open>json.loads\<close>, such as its
  \<^verbatim>\<open>RecursionError\<close>, and the \<^verbatim>\<open>TypeError\<close> of \<^verbatim>\<open>len\<close> on a parsed value that
  has no length.\<close>

lemma generate_questions_propagates:
  assumes "format_template (question_prompt (prompts w)) [(''user_input'', q)] = Inr prompt"
    and "outcome (run w (remove_tool ''mark_task_complete'' (create_agent w)) (JStr prompt) None) = Inr r"
  shows "json_loads w (py_strip r) = Inl e \<Longrightarrow> \<not> is_value_error e \<Longrightarrow>
           fst (generate_questions w q) = Inl e"
    and "json_loads w (py_strip r) = Inr v \<Longrightarrow> py_len v = Inl e \<Longrightarrow>
           fst (generate_questions w q) = Inl e"
proof -
  show "fst (generate_questions w q) = Inl e"
    if "json_loads w (py_strip r) = Inl e" "\<not> is_value_error e"
    using that assms(2)
    by (simp add: generate_questions_result [OF assms(1)] parse_questions_def)
  show "fst (generate_questions w q) = Inl e"
    if "json_loads w (py_strip r) = Inr v" "py_len v = Inl e"
    using that assms(2)
    by (cases v) (auto simp: generate_questions_result [OF assms(1)] parse_questions_def)
qed

text \<open>When the response of the stage-1 agent parses to a JSON array of four strings,
  \<^verbatim>\<open>generate_questions\<close> returns that array, the same strings in the same order. When
  \<^verbatim>\<open>json.loads\<close> raises a \<^verbatim>\<open>ValueError\<close> on it, or it parses to a value whose length
  is not 4, the result is the list of the four fixed prefixes, each followed by the query
  as it was passed: a function of the query alone.\<close>

lemma generate_questions_array_or_fallback:
  assumes "format_template (question_prompt (prompts w)) [(''user_input'', q)] = Inr prompt"
    and "outcome (run w (remove_tool ''mark_task_complete'' (create_agent w)) (JStr prompt) None) = Inr r"
  shows
    "(json_loads w (py_strip r) = Inr (JArr [JStr a, JStr b, JStr c, JStr d]) \<longrightarrow>
        fst (generate_questions w q) = Inr (JArr [JStr a, JStr b, JStr c, JStr d])) \<and>
     ((\<exists>e. json_loads w (py_strip r) = Inl e \<and> is_value_error e) \<or>
      (\<exists>v n. json_loads w (py_strip r) = Inr v \<and> py_len v = Inr n \<and> n \<noteq> 4) \<longrightarrow>
        fst (generate_questions w q) =
          Inr (JArr [JStr (''Research comprehensive information about: '' @ q),
                     JStr (''Analyze and provide insights about: '' @ q),
                     JStr (''Find alternative perspectives on: '' @ q),
                     JStr (''Verify and cross-check facts about: '' @ q)]))"
  using assms(2)
  by (auto simp: generate_questions_result [OF assms(1)] parse_questions_def fallback_questions_def)

text \<open>
  Claim C3, as amended. With a question prompt that formats, \<^verbatim>\<open>generate_questions\<close>
  raises what the agent's run raises: a provider failure is none of the exceptions its
  \<^verbatim>\<open>except\<close> clause names, and it propagates. When the run returns a response, a
  response on which \<^verbatim>\<open>json.loads\<close> raises a \<^verbatim>\<open>JSONDecodeError\<close> (or another
  \<^verbatim>\<open>ValueError\<close>) gives the fallback, and one that parses to a value with a length
  gives that value when the length is 4 and the fallback otherwise: four questions in
  each case.
\<close>

theorem C3_generate_questions:
  assumes "format_template (question_prompt (prompts w)) [(''user_input'', q)] = Inr prompt"
  shows
    "(\<forall>e. outcome (run w (remove_tool ''mark_task_complete'' (create_agent w)) (JStr prompt) None) = Inl e
         \<longrightarrow> fst (generate_questions w q) = Inl e) \<and>
     (\<forall>r. outcome (run w (remove_tool ''mark_task_complete'' (create_agent w)) (JStr prompt) None) = Inr r
         \<longrightarrow>
         (\<forall>e. json_loads w (py_strip r) = Inl e \<and> is_value_error e \<longrightarrow>
            fst (generate_questions w q) = Inr (JArr (map JStr (fallback_questions q)))) \<and>
         (\<forall>v n. json_loads w (py_strip r) = Inr v \<and> py_len v = Inr n \<longrightarrow>
            fst (generate_questions w q) =
              Inr (if n = 4 then v else JArr (map JStr (fallback_questions q))) \<and>
            py_len (if n = 4 then v else JArr (map JStr (fallback_questions q))) = Inr 4))"
  using run_raise [of w "remove_tool ''mark_task_complete'' (create_agent w)" "JStr prompt"]
  by (auto simp: generate_questions_result [OF assms] parse_questions_def fallback_questions_def)

text \<open>The response \<^verbatim>\<open>[1, 2]\<close> parses to a list of length two, and the response
  \<^verbatim>\<open>oops\<close> makes \<^verbatim>\<open>json.loads\<close> raise a \<^verbatim>\<open>JSONDecodeError\<close>: the fallback both
  times.\<close>

theorem C3_witness:
  "format_template (question_prompt (prompts (demo_world ''openrouter'' 10 (or_done ''[1, 2]'') gm_down)))
      [(''user_input'', ''q'')] = Inr ''Original query: q'' \<and>
   fst (generate_questions (demo_world ''openrouter'' 10 (or_done ''[1, 2]'') gm_down) ''q'') =
     Inr (JArr (map JStr (fallback_questions ''q''))) \<and>
   fst (generate_questions (demo_world ''openrouter'' 10 (or_done ''no json'') gm_down) ''q'') =
     Inr (JArr (map JStr (fallback_questions ''q'')))"
proof -
  let ?w = "demo_world ''openrouter'' 10 (or_done ''[1, 2]'') gm_down"
  let ?w' = "demo_world ''openrouter'' 10 (or_done ''no json'') gm_down"
  have f: "format_template (question_prompt (prompts ?w)) [(''user_input'', ''q'')] =
             Inr ''Original query: q''" by code_simp
  have o: "outcome (run ?w (remove_tool ''mark_task_complete'' (create_agent ?w))
             (JStr ''Original query: q'') None) = Inr ''[1, 2]''" by code_simp
  have l: "json_loads ?w (py_strip ''[1, 2]'') = Inr (JArr [JInt 1, JInt 2])" by code_simp
  have n: "py_len (JArr [JInt 1, JInt 2]) = Inr 2" by simp
  from C3_generate_questions [OF f, THEN conjunct2, rule_format, OF o, THEN conjunct2, rule_format,
      of "JArr [JInt 1, JInt 2]" 2] l n
  have a: "fst (generate_questions ?w ''q'') = Inr (JArr (map JStr (fallback_questions ''q'')))"
    by simp
  have f': "format_template (question_prompt (prompts ?w')) [(''user_input'', ''q'')] =
             Inr ''Original query: q''" by code_simp
  have o': "outcome (run ?w' (remove_tool ''mark_task_complete'' (create_agent ?w'))
             (JStr ''Original query: q'') None) = Inr ''no json''" by code_simp
  have l': "json_loads ?w' (py_strip ''no json'') =
             Inl (JSONDecodeError ''Expecting value: line 1 column 1 (char 0)'')" by code_simp
  have v: "is_value_error (JSONDecodeError ''Expecting value: line 1 column 1 (char 0)'')" by simp
  from C3_generate_questions [OF f', THEN conjunct2, rule_format, OF o', THEN conjunct1, rule_format,
      of "JSONDecodeError ''Expecting value: line 1 column 1 (char 0)''"] l' v
  have b: "fst (generate_questions ?w' ''q'') = Inr (JArr (map JStr (fallback_questions ''q'')))"
    by simp
  from f a b show ?thesis by blast
qed

text \<open>Claim C3 as stated fails: with an unreachable provider \<^verbatim>\<open>generate_questions\<close>
  raises.\<close>

theorem C3_counterexample:
  "fst (generate_questions (demo_world ''openrouter'' 10 or_down gm_down) ''q'') =
     Inl (Exception ''LLM call failed: Connection error.'')"
  by code_simp

text \<open>
  Claim C4 fails in its second half. The stage-1 agent answers \<^verbatim>\<open>5\<close>: a response that
  is JSON and no array of four strings. \<^verbatim>\<open>len(questions)\<close> raises a \<^verbatim>\<open>TypeError\<close>,
  which the \<^verbatim>\<open>except\<close> clause written for the wrong shapes does not name, and
  \<^verbatim>\<open>generate_questions\<close> raises it instead of returning the fallback.
\<close>

theorem C4_scalar_response_raises:
  "outcome (run (demo_world ''openrouter'' 10 (or_done ''5'') gm_down)
      (remove_tool ''mark_task_complete''
         (create_agent (demo_world ''openrouter'' 10 (or_done ''5'') gm_down)))
      (JStr ''Original query: q'') None) = Inr ''5'' \<and>
   json_loads (demo_world ''openrouter'' 10 (or_done ''5'') gm_down) (py_strip ''5'') = Inr (JInt 5) \<and>
   fst (generate_questions (demo_world ''openrouter'' 10 (or_done ''5'') gm_down) ''q'') =
     Inl (TypeError (''object of type '' @ [CHR 0x27] @ ''int'' @ [CHR 0x27] @ '' has no len()'')) \<and>
   fst (generate_questions (demo_world ''openrouter'' 10 (or_done ''5'') gm_down) ''q'') \<noteq>
     Inr (JArr (map JStr (fallback_questions ''q'')))"
  by code_simp

section \<open>The fan-out stages (claim C1)\<close>

lemma yielded_indices:
  "distinct (remdups (filter (\<lambda>i. i < n) order))"
  "set (remdups (filter (\<lambda>i. i < n) order)) = set order \<inter> {..<n}"
  by auto

lemma as_completed_timeout:
  "snd (as_completed futures order) \<longleftrightarrow> \<not> {..<length futures} \<subseteq> set order"
proof -
  let ?n = "length futures"
  let ?ys = "remdups (filter (\<lambda>i. i < ?n) order)"
  have l: "length ?ys = card (set order \<inter> {..<?n})"
    using distinct_card [of ?ys] by (simp only: yielded_indices)
  have "card (set order \<inter> {..<?n}) < ?n \<longleftrightarrow> \<not> {..<?n} \<subseteq> set order"
  proof
    assume "card (set order \<inter> {..<?n}) < ?n"
    then show "\<not> {..<?n} \<subseteq> set order"
      by (metis Int_absorb1 card_lessThan nat_neq_iff)
  next
    assume a: "\<not> {..<?n} \<subseteq> set order"
    have "set order \<inter> {..<?n} \<subset> {..<?n}" using a by auto
    then have "card (set order \<inter> {..<?n}) < card {..<?n}"
      by (intro psubset_card_mono) simp_all
    then show "card (set order \<inter> {..<?n}) < ?n" by simp
  qed
  with l show ?thesis by (simp add: as_completed_def Let_def)
qed

lemma run_agent_id [simp]: "agent_id (fst (run_agent w aid prompt b)) = aid"
  by (simp add: run_agent_def Let_def split: prod.splits sum.splits)

lemma run_parallel_agents_result:
  assumes "py_iter asked = Inr qs"
  shows "fst (run_parallel_agents w sched asked images) =
     (if {..<min 4 (length qs)} \<subseteq> set (yield_order sched)
      then Inr (map (\<lambda>(name, fut). collect_result name ''Agent failed: '' fut)
             (fst (as_completed
                (map (\<lambda>(name, r, evs). (name, Inr r))
                  (map (\<lambda>(name, question). (name, run_agent w name question False))
                     (zip agent_names qs)))
                (yield_order sched))))
      else Inl TimeoutError)"
proof -
  let ?fs = "map (\<lambda>(name, r, evs). (name, Inr r :: error + agent_result))
               (map (\<lambda>(name, question). (name, run_agent w name question False))
                  (zip agent_names qs))"
  have l: "length ?fs = min 4 (length qs)" by (simp add: agent_names_def)
  have t: "snd (as_completed ?fs (yield_order sched)) \<longleftrightarrow>
           \<not> {..<min 4 (length qs)} \<subseteq> set (yield_order sched)"
    by (simp only: as_completed_timeout l)
  obtain ys b where a: "as_completed ?fs (yield_order sched) = (ys, b)" by force
  with t have b: "b \<longleftrightarrow> \<not> {..<min 4 (length qs)} \<subseteq> set (yield_order sched)" by simp
  show ?thesis
    using assms a b by (cases b) (simp_all add: run_parallel_agents_def Let_def)
qed

lemma run_validation_result:
  assumes "format_template (validation_prompt_1 (prompts w))
             [(''original_query'', q), (''draft_answer'', d)] = Inr p1"
    and "format_template (validation_prompt_2 (prompts w))
             [(''original_query'', q), (''draft_answer'', d)] = Inr p2"
  shows "fst (run_validation w sched q d) =
     (if {..<2} \<subseteq> set (yield_order sched)
      then Inr (map (collect_result ''validator'' ''Validation failed: '')
             (fst (as_completed
                [Inr (fst (run_agent w ''validator_1'' (JStr p1) True)),
                 Inr (fst (run_agent w ''validator_2'' (JStr p2) True))]
                (yield_order sched))))
      else Inl TimeoutError)"
proof -
  let ?fs = "[Inr (fst (run_agent w ''validator_1'' (JStr p1) True)),
              Inr (fst (run_agent w ''validator_2'' (JStr p2) True))] :: (error + agent_result) list"
  have l: "length ?fs = 2" by simp
  have t: "snd (as_completed ?fs (yield_order sched)) \<longleftrightarrow> \<not> {..<2} \<subseteq> set (yield_order sched)"
    by (simp only: as_completed_timeout l)
  obtain ys b where a: "as_completed ?fs (yield_order sched) = (ys, b)" by force
  with t have b: "b \<longleftrightarrow> \<not> {..<2} \<subseteq> set (yield_order sched)" by simp
  show ?thesis
    using assms a b
    by (cases b) (simp_all add: run_validation_def Let_def case_prod_unfold)
qed

lemma completion_order_plain:
  "distinct (yield_order sched) \<Longrightarrow> set (yield_order sched) \<subseteq> {..<n} \<Longrightarrow>
   completion_order n sched = yield_order sched"
proof -
  assume d: "distinct (yield_order sched)" and s: "set (yield_order sched) \<subseteq> {..<n}"
  from s have "filter (\<lambda>i. i < n) (yield_order sched) = yield_order sched"
    by (auto simp: filter_id_conv)
  with d show ?thesis by (simp add: completion_order_def distinct_remdups_id)
qed

lemma as_completed_order:
  "fst (as_completed futures (yield_order sched)) =
   map (\<lambda>i. futures ! i) (completion_order (length futures) sched)"
  by (simp add: as_completed_def completion_order_def Let_def)

lemma completion_order_bound: "i \<in> set (completion_order n sched) \<Longrightarrow> i < n"
  by (simp add: completion_order_def)

lemma research_records:
  assumes "4 \<le> length qs"
  shows "map (\<lambda>(name, fut). collect_result name prefix fut)
     (map (\<lambda>i. map (\<lambda>(name, r, evs). (name, Inr r))
                 (map (\<lambda>(name, question). (name, run_agent w name question False))
                    (zip agent_names qs)) ! i)
        (completion_order 4 sched)) =
   map (\<lambda>i. fst (run_agent w (agent_names ! i) (qs ! i) False)) (completion_order 4 sched)"
proof -
  have "(\<lambda>(name, fut). collect_result name prefix fut)
          (map (\<lambda>(name, r, evs). (name, Inr r))
                 (map (\<lambda>(name, question). (name, run_agent w name question False))
                    (zip agent_names qs)) ! i) =
        fst (run_agent w (agent_names ! i) (qs ! i) False)" if "i < 4" for i
  proof -
    from that assms have "i < length (zip agent_names qs)" by (simp add: agent_names_def)
    then show ?thesis
      by (simp add: collect_result_def case_prod_unfold)
  qed
  then show ?thesis
    by (auto simp: comp_def dest: completion_order_bound)
qed

lemma validation_records:
  "map (collect_result label prefix)
     (map (\<lambda>i. [Inr (fst (run_agent w ''validator_1'' (JStr p1) True)),
                 Inr (fst (run_agent w ''validator_2'' (JStr p2) True))] ! i)
        (completion_order 2 sched)) =
   map (\<lambda>i. fst (run_agent w ([''validator_1'', ''validator_2''] ! i) (JStr ([p1, p2] ! i)) True))
     (completion_order 2 sched)"
proof -
  have "collect_result label prefix
          ([Inr (fst (run_agent w ''validator_1'' (JStr p1) True)),
            Inr (fst (run_agent w ''validator_2'' (JStr p2) True))] ! i) =
        fst (run_agent w ([''validator_1'', ''validator_2''] ! i) (JStr ([p1, p2] ! i)) True)"
    if "i < 2" for i
  proof -
    from that have "i = 0 \<or> i = 1" by auto
    then show ?thesis by (auto simp: collect_result_def)
  qed
  then show ?thesis
    by (auto simp: comp_def dest: completion_order_bound)
qed


lemma completion_order_all:
  assumes "{..<n} \<subseteq> set (yield_order sched)"
  shows "mset (completion_order n sched) = mset [0..<n]"
proof -
  have "set (completion_order n sched) = {..<n}"
    using assms by (auto simp: completion_order_def)
  moreover have "distinct (completion_order n sched)" by (simp add: completion_order_def)
  ultimately have "mset (completion_order n sched) = mset_set {..<n}" by (metis mset_set_set)
  then show ?thesis by (simp add: mset_upt lessThan_atLeast0)
qed

lemma fan_out_ids:
  assumes "{..<n} \<subseteq> set (yield_order sched)" and "length names = n"
    and "\<And>i. i < n \<Longrightarrow> agent_id (task i) = names ! i"
  shows "length (map task (completion_order n sched)) = n"
    and "mset (map agent_id (map task (completion_order n sched))) = mset names"
proof -
  from completion_order_all [OF assms(1)]
  have m: "mset (completion_order n sched) = mset [0..<n]" .
  then have "size (mset (completion_order n sched)) = size (mset [0..<n])" by simp
  then show "length (map task (completion_order n sched)) = n" by simp
  have "map agent_id (map task (completion_order n sched)) =
        map (\<lambda>i. names ! i) (completion_order n sched)"
    using assms(3) by (auto dest: completion_order_bound)
  then have "mset (map agent_id (map task (completion_order n sched))) =
        mset (map (\<lambda>i. names ! i) (completion_order n sched))" by (rule arg_cong)
  also have "\<dots> = image_mset (\<lambda>i. names ! i) (mset (completion_order n sched))"
    by (simp only: mset_map)
  also have "\<dots> = mset (map (\<lambda>i. names ! i) [0..<n])" by (simp only: m mset_map)
  also have "map (\<lambda>i. names ! i) [0..<n] = names" unfolding assms(2) [symmetric] by (rule map_nth)
  finally show "mset (map agent_id (map task (completion_order n sched))) = mset names" .
qed

text \<open>
  Claim C1, as amended. Given at least four questions (and validation prompts that
  format), a fan-out stage whose futures are all yielded before the timeout returns
  one record per task, four for the research stage and two for the validation stage:
  the list holds, for each position of the completion order, the record that the task
  at that position returned, under the agent identifier the task was started with, so
  that the identifiers of the list are those of the tasks, each once. This holds whether
  the runs of the tasks succeed or raise. When a future is still pending at the timeout,
  the stage returns no list: the \<^verbatim>\<open>TimeoutError\<close> of \<^verbatim>\<open>as_completed\<close> leaves the
  function, and no record is made up for the missing results.
\<close>

theorem C1_fan_out_results:
  assumes "py_iter asked = Inr qs" and "4 \<le> length qs"
    and "format_template (validation_prompt_1 (prompts w))
             [(''original_query'', q), (''draft_answer'', d)] = Inr p1"
    and "format_template (validation_prompt_2 (prompts w))
             [(''original_query'', q), (''draft_answer'', d)] = Inr p2"
  shows
    "(if {..<4} \<subseteq> set (yield_order research)
      then \<exists>rs. fst (run_parallel_agents w research asked images) = Inr rs \<and>
             length rs = 4 \<and> mset (map agent_id rs) = mset agent_names \<and>
             rs = map (\<lambda>i. fst (run_agent w (agent_names ! i) (qs ! i) False))
                    (completion_order 4 research)
      else fst (run_parallel_agents w research asked images) = Inl TimeoutError) \<and>
     (if {..<2} \<subseteq> set (yield_order validation)
      then \<exists>vs. fst (run_validation w validation q d) = Inr vs \<and>
             length vs = 2 \<and> mset (map agent_id vs) = mset [''validator_1'', ''validator_2''] \<and>
             vs = map (\<lambda>i. fst (run_agent w ([''validator_1'', ''validator_2''] ! i)
                                    (JStr ([p1, p2] ! i)) True))
                    (completion_order 2 validation)
      else fst (run_validation w validation q d) = Inl TimeoutError)"
proof (intro conjI)
  let ?fs = "map (\<lambda>(name, r, evs). (name, Inr r :: error + agent_result))
               (map (\<lambda>(name, question). (name, run_agent w name question False))
                  (zip agent_names qs))"
  let ?task = "\<lambda>i. fst (run_agent w (agent_names ! i) (qs ! i) False)"
  have m: "min 4 (length qs) = 4" using assms(2) by simp
  have l: "length ?fs = 4" using assms(2) by (simp add: agent_names_def)
  show "if {..<4} \<subseteq> set (yield_order research)
      then \<exists>rs. fst (run_parallel_agents w research asked images) = Inr rs \<and>
             length rs = 4 \<and> mset (map agent_id rs) = mset agent_names \<and>
             rs = map ?task (completion_order 4 research)
      else fst (run_parallel_agents w research asked images) = Inl TimeoutError"
  proof (cases "{..<4} \<subseteq> set (yield_order research)")
    case False
    then show ?thesis by (simp add: run_parallel_agents_result [OF assms(1)] m)
  next
    case True
    have "fst (as_completed ?fs (yield_order research)) =
          map (\<lambda>i. ?fs ! i) (completion_order 4 research)"
      by (simp only: as_completed_order l)
    with True have res: "fst (run_parallel_agents w research asked images) =
        Inr (map ?task (completion_order 4 research))"
      by (simp only: run_parallel_agents_result [OF assms(1)] m if_True
            research_records [OF assms(2)])
    have n: "length agent_names = 4" by (simp add: agent_names_def)
    have len: "length (map ?task (completion_order 4 research)) = 4"
      by (rule fan_out_ids(1) [OF True n]) simp
    have ids: "mset (map agent_id (map ?task (completion_order 4 research))) = mset agent_names"
      by (rule fan_out_ids(2) [OF True n]) simp
    from res len ids have
      "\<exists>rs. fst (run_parallel_agents w research asked images) = Inr rs \<and>
             length rs = 4 \<and> mset (map agent_id rs) = mset agent_names \<and>
             rs = map ?task (completion_order 4 research)"
      by blast
    with True show ?thesis by (simp only: if_True)
  qed
next
  let ?fs = "[Inr (fst (run_agent w ''validator_1'' (JStr p1) True)),
              Inr (fst (run_agent w ''validator_2'' (JStr p2) True))] :: (error + agent_result) list"
  let ?task = "\<lambda>i. fst (run_agent w ([''validator_1'', ''validator_2''] ! i) (JStr ([p1, p2] ! i)) True)"
  have l: "length ?fs = 2" by simp
  show "if {..<2} \<subseteq> set (yield_order validation)
      then \<exists>vs. fst (run_validation w validation q d) = Inr vs \<and>
             length vs = 2 \<and> mset (map agent_id vs) = mset [''validator_1'', ''validator_2''] \<and>
             vs = map ?task (completion_order 2 validation)
      else fst (run_validation w validation q d) = Inl TimeoutError"
  proof (cases "{..<2} \<subseteq> set (yield_order validation)")
    case False
    then show ?thesis by (simp add: run_validation_result [OF assms(3,4)])
  next
    case True
    have "fst (as_completed ?fs (yield_order validation)) =
          map (\<lambda>i. ?fs ! i) (completion_order 2 validation)"
      by (simp only: as_completed_order l)
    with True have res: "fst (run_validation w validation q d) =
        Inr (map ?task (completion_order 2 validation))"
      by (simp only: run_validation_result [OF assms(3,4)] if_True validation_records)
    have n: "length [''validator_1'', ''validator_2''] = 2" by simp
    have t: "agent_id (?task i) = [''validator_1'', ''validator_2''] ! i" for i by simp
    have len: "length (map ?task (completion_order 2 validation)) = 2"
      by (rule fan_out_ids(1) [OF True n]) (rule t)
    have ids: "mset (map agent_id (map ?task (completion_order 2 validation))) =
               mset [''validator_1'', ''validator_2'']"
      by (rule fan_out_ids(2) [OF True n]) (rule t)
    from res len ids have
      "\<exists>vs. fst (run_validation w validation q d) = Inr vs \<and>
             length vs = 2 \<and> mset (map agent_id vs) = mset [''validator_1'', ''validator_2''] \<and>
             vs = map ?task (completion_order 2 validation)"
      by blast
    with True show ?thesis by (simp only: if_True)
  qed
qed

text \<open>Four research tasks completed in the order 2, 0, 3, 1, and a validation stage whose
  first validator is still pending at the timeout.\<close>

theorem C1_witness:
  "(py_iter (JArr [JStr ''a'', JStr ''b'', JStr ''c'', JStr ''d'']) =
      Inr [JStr ''a'', JStr ''b'', JStr ''c'', JStr ''d''] \<and>
    4 \<le> length [JStr ''a'', JStr ''b'', JStr ''c'', JStr ''d''] \<and>
    format_template (validation_prompt_1 (prompts (demo_world ''openrouter'' 10 (or_done ''R'') gm_down)))
      [(''original_query'', ''q''), (''draft_answer'', ''d'')] = Inr ''Accuracy. Query: q Draft: d'' \<and>
    format_template (validation_prompt_2 (prompts (demo_world ''openrouter'' 10 (or_done ''R'') gm_down)))
      [(''original_query'', ''q''), (''draft_answer'', ''d'')] = Inr ''Quality. Query: q Draft: d'') \<and>
   (\<exists>rs. fst (run_parallel_agents (demo_world ''openrouter'' 10 (or_done ''R'') gm_down)
              \<lparr>interleaving = [1, 0], yield_order = [2, 0, 3, 1]\<rparr>
              (JArr [JStr ''a'', JStr ''b'', JStr ''c'', JStr ''d'']) None) = Inr rs \<and>
         length rs = 4 \<and> mset (map agent_id rs) = mset agent_names \<and>
         rs = map (\<lambda>i. fst (run_agent (demo_world ''openrouter'' 10 (or_done ''R'') gm_down)
                               (agent_names ! i)
                               ([JStr ''a'', JStr ''b'', JStr ''c'', JStr ''d''] ! i) False))
                [2, 0, 3, 1]) \<and>
   (case fst (run_parallel_agents (demo_world ''openrouter'' 10 (or_done ''R'') gm_down)
              \<lparr>interleaving = [1, 0], yield_order = [2, 0, 3, 1]\<rparr>
              (JArr [JStr ''a'', JStr ''b'', JStr ''c'', JStr ''d'']) None) of
      Inl e \<Rightarrow> []
    | Inr rs \<Rightarrow> map agent_id rs) = [''alternatives'', ''research'', ''verification'', ''analysis''] \<and>
   fst (run_validation (demo_world ''openrouter'' 10 (or_done ''R'') gm_down)
          \<lparr>interleaving = [], yield_order = [1]\<rparr> ''q'' ''d'') = Inl TimeoutError"
proof -
  let ?w = "demo_world ''openrouter'' 10 (or_done ''R'') gm_down"
  let ?qs = "[JStr ''a'', JStr ''b'', JStr ''c'', JStr ''d'']"
  let ?s = "\<lparr>interleaving = [1, 0], yield_order = [2, 0, 3, 1]\<rparr>"
  let ?v = "\<lparr>interleaving = [], yield_order = [1]\<rparr>"
  have h1: "py_iter (JArr ?qs) = Inr ?qs" by simp
  have h2: "4 \<le> length ?qs" by simp
  have h3: "format_template (validation_prompt_1 (prompts ?w))
      [(''original_query'', ''q''), (''draft_answer'', ''d'')] = Inr ''Accuracy. Query: q Draft: d''"
    by code_simp
  have h4: "format_template (validation_prompt_2 (prompts ?w))
      [(''original_query'', ''q''), (''draft_answer'', ''d'')] = Inr ''Quality. Query: q Draft: d''"
    by code_simp
  have y: "{..<4} \<subseteq> set (yield_order ?s)" by (auto simp: lessThan_def)
  have n: "\<not> {..<2} \<subseteq> set (yield_order ?v)"
  proof
    assume "{..<2} \<subseteq> set (yield_order ?v)"
    moreover have "(0::nat) \<in> {..<2}" by simp
    ultimately have "(0::nat) \<in> set (yield_order ?v)" by (rule subsetD)
    then show False by simp
  qed
  have o: "completion_order 4 ?s = [2, 0, 3, 1]" by code_simp
  note c = C1_fan_out_results [OF h1 h2 h3 h4, of ?s None ?v]
  from c [THEN conjunct1] y have
    "\<exists>rs. fst (run_parallel_agents ?w ?s (JArr ?qs) None) = Inr rs \<and>
         length rs = 4 \<and> mset (map agent_id rs) = mset agent_names \<and>
         rs = map (\<lambda>i. fst (run_agent ?w (agent_names ! i) (?qs ! i) False))
                (completion_order 4 ?s)"
    by (simp only: if_True)
  then have a:
    "\<exists>rs. fst (run_parallel_agents ?w ?s (JArr ?qs) None) = Inr rs \<and>
         length rs = 4 \<and> mset (map agent_id rs) = mset agent_names \<and>
         rs = map (\<lambda>i. fst (run_agent ?w (agent_names ! i) (?qs ! i) False)) [2, 0, 3, 1]"
    by (simp only: o)
  from c [THEN conjunct2] n have b: "fst (run_validation ?w ?v ''q'' ''d'') = Inl TimeoutError"
    by (simp only: if_False)
  have e: "(case fst (run_parallel_agents ?w ?s (JArr ?qs) None) of
      Inl e \<Rightarrow> [] | Inr rs \<Rightarrow> map agent_id rs) =
      [''alternatives'', ''research'', ''verification'', ''analysis'']"
    by code_simp
  from h1 h2 h3 h4 a b e show ?thesis by blast
qed

text \<open>Claim C1 as stated fails: when the fourth research task is still pending at the
  timeout, \<^verbatim>\<open>run_parallel_agents\<close> raises instead of returning four records.\<close>

theorem C1_counterexample:
  "fst (run_parallel_agents (demo_world ''openrouter'' 10 (or_done ''R'') gm_down)
          \<lparr>interleaving = [], yield_order = [0, 1, 2]\<rparr>
          (JArr [JStr ''a'', JStr ''b'', JStr ''c'', JStr ''d'']) None) = Inl TimeoutError"
  by code_simp

section \<open>Interleaved threads and restricted tool sets\<close>

lemma interleave_subset: "set (interleave sched threads) \<subseteq> \<Union> (set ` set threads)"
proof (induction sched arbitrary: threads)
  case Nil
  then show ?case by auto
next
  case (Cons i sched)
  show ?case
  proof (cases "i < length threads")
    case False
    with Cons.IH [of threads] show ?thesis by simp
  next
    case True
    show ?thesis
    proof (cases "threads ! i")
      case Nil
      with True Cons.IH [of threads] show ?thesis by simp
    next
      case (Cons step rest)
      from True have m: "threads ! i \<in> set threads" by simp
      with Cons have s: "step \<in> \<Union> (set ` set threads)" "set rest \<subseteq> \<Union> (set ` set threads)"
        by (auto intro: bexI [of _ "threads ! i"])
      have "set (threads[i := rest]) \<subseteq> insert rest (set threads)"
        by (rule set_update_subset_insert)
      with s(2) have "\<Union> (set ` set (threads[i := rest])) \<subseteq> \<Union> (set ` set threads)" by auto
      with Cons.IH [of "threads[i := rest]"] s(1) True Cons show ?thesis by auto
    qed
  qed
qed

lemma create_agent_consistent: "gm_consistent (create_agent w)"
proof -
  have "agent_tools (create_agent w) =
        map (\<lambda>(n, tl). to_openrouter_schema tl) (discovered_tools (create_agent w))"
    by (simp add: create_agent_def Let_def)
  with create_agent_keyed [of w] show ?thesis by (simp only: gm_consistent_def) simp
qed

lemma remove_tool_class [simp]: "agent_class (remove_tool t ag) = agent_class ag"
  by (simp add: remove_tool_def or_remove_tool_def gm_remove_tool_def Let_def
        split: agent_class.splits)

lemma remove_tool_consistent: "gm_consistent ag \<Longrightarrow> gm_consistent (remove_tool t ag)"
  unfolding gm_consistent_def
  by (auto simp: remove_tool_keyed) (simp add: remove_tool_def gm_remove_tool_def Let_def)

lemma remove_tool_names:
  assumes "gm_consistent ag"
  shows "map schema_name (agent_tools (remove_tool t ag)) =
         filter (\<lambda>n. n \<noteq> t) (map schema_name (agent_tools ag))"
proof (cases "agent_class ag")
  case OpenRouterAgent
  then show ?thesis
    by (simp add: remove_tool_def or_remove_tool_def filter_map comp_def)
next
  case GeminiAgent
  with assms have k: "keyed_by_name ag"
    and a: "agent_tools ag = map (\<lambda>(n, tl). to_openrouter_schema tl) (discovered_tools ag)"
    by (simp_all add: gm_consistent_def)
  have "map schema_name (map (\<lambda>(n, tl). to_openrouter_schema tl) (filter (\<lambda>(n, tl). n \<noteq> t) d)) =
        filter (\<lambda>n. n \<noteq> t) (map schema_name (map (\<lambda>(n, tl). to_openrouter_schema tl) d))"
    if "list_all (\<lambda>(n, tl). tool_name tl = n) d" for d
    using that by (induction d) (auto simp: to_openrouter_schema_def)
  with k a GeminiAgent show ?thesis
    by (simp add: remove_tool_def gm_remove_tool_def Let_def keyed_by_name_def)
qed

lemma remove_some_tools:
  "gm_consistent ag \<Longrightarrow>
   gm_consistent (foldl (\<lambda>a n. if P n then remove_tool n a else a) ag ns) \<and>
   dict_keys (tool_mapping (foldl (\<lambda>a n. if P n then remove_tool n a else a) ag ns)) =
     filter (\<lambda>n. \<not> (n \<in> set ns \<and> P n)) (dict_keys (tool_mapping ag)) \<and>
   map schema_name (agent_tools (foldl (\<lambda>a n. if P n then remove_tool n a else a) ag ns)) =
     filter (\<lambda>n. \<not> (n \<in> set ns \<and> P n)) (map schema_name (agent_tools ag))"
proof (induction ns arbitrary: ag)
  case Nil
  then show ?case by simp
next
  case (Cons n ns)
  show ?case
  proof (cases "P n")
    case False
    with Cons.IH [OF Cons.prems] show ?thesis
      by (auto intro!: filter_cong)
  next
    case True
    from Cons.IH [OF remove_tool_consistent [OF Cons.prems, of n]] True
    show ?thesis
      by (auto simp: remove_tool_keys remove_tool_names [OF Cons.prems] intro!: filter_cong)
  qed
qed

lemma keep_search_and_calculator_tools:
  assumes "gm_consistent ag"
  shows "dict_keys (tool_mapping (keep_search_and_calculator ag)) =
           filter (\<lambda>n. n = ''search'' \<or> n = ''calculator'') (dict_keys (tool_mapping ag))"
    and "map schema_name (agent_tools (keep_search_and_calculator ag)) =
           filter (\<lambda>n. n \<in> set (dict_keys (tool_mapping ag)) \<longrightarrow> n = ''search'' \<or> n = ''calculator'')
             (map schema_name (agent_tools ag))"
  using remove_some_tools [OF assms,
      of "\<lambda>n. n \<noteq> ''search'' \<and> n \<noteq> ''calculator''" "dict_keys (tool_mapping ag)"]
  by (auto simp: keep_search_and_calculator_def intro!: filter_cong)

section \<open>Tool sets of the fan-out agents (claim C2)\<close>

lemma create_agent_names:
  "map schema_name (agent_tools (create_agent w)) = dict_keys (tool_mapping (create_agent w))"
proof -
  have "map schema_name (map (\<lambda>(n, tl). to_openrouter_schema tl) d) =
        map fst (map (\<lambda>(n, tl). (n, execute tl)) d)"
    if "list_all (\<lambda>(n, tl). tool_name tl = n) d" for d
    using that by (induction d) (auto simp: to_openrouter_schema_def)
  with create_agent_keyed [of w] show ?thesis
    by (simp add: create_agent_def Let_def keyed_by_name_def dict_keys_def)
qed

lemma run_agent_events:
  "set (snd (run_agent w aid prompt b)) \<subseteq>
     {AgentUpdate aid ''PROCESSING'' None,
      snd (run_logged w aid (if b then keep_search_and_calculator (create_agent w) else create_agent w)
             prompt None)} \<union>
     {AgentUpdate aid s r | s r. s = ''COMPLETED'' \<or> s = ''FAILED''}"
  by (auto simp: run_agent_def Let_def split: prod.splits sum.splits)

lemma research_events:
  assumes "\<And>s t. P (StageUpdate s t)" and "\<And>a s r. P (AgentUpdate a s r)"
    and "\<And>name x. \<forall>ev\<in>set (snd (run_agent w name x False)). P ev"
  shows "\<forall>ev\<in>set (snd (run_parallel_agents w sched asked images)). P ev"
proof (cases "py_iter asked")
  case (Inl e)
  then show ?thesis by (auto simp: run_parallel_agents_def Let_def assms(1,2))
next
  case (Inr qs)
  let ?ts = "map (\<lambda>(name, r, evs). evs)
               (map (\<lambda>(name, question). (name, run_agent w name question False))
                  (zip agent_names qs))"
  have "\<forall>t\<in>set ?ts. \<forall>ev\<in>set t. P ev" using assms(3) by (auto simp: case_prod_unfold)
  with interleave_subset [of "interleaving sched" ?ts]
  have "\<forall>ev\<in>set (interleave (interleaving sched) ?ts). P ev" by blast
  with Inr show ?thesis
    by (auto simp: run_parallel_agents_def Let_def assms(1,2) split: prod.splits bool.splits)
qed

lemma validation_events:
  assumes "\<And>s t. P (StageUpdate s t)" and "\<And>a s r. P (AgentUpdate a s r)"
    and "\<And>name x. \<forall>ev\<in>set (snd (run_agent w name x True)). P ev"
  shows "\<forall>ev\<in>set (snd (run_validation w sched q d)). P ev"
proof -
  have "\<forall>ev\<in>set (interleave (interleaving sched)
           [snd (run_agent w ''validator_1'' (JStr p1) True),
            snd (run_agent w ''validator_2'' (JStr p2) True)]). P ev" for p1 p2
    using interleave_subset [of "interleaving sched"
           "[snd (run_agent w ''validator_1'' (JStr p1) True),
             snd (run_agent w ''validator_2'' (JStr p2) True)]"] assms(3)
    by (simp only: list.set image_insert image_empty Union_insert Union_empty) blast
  then show ?thesis
    by (auto simp: run_validation_def Let_def case_prod_unfold assms(1,2)
          split: bool.splits sum.splits)
qed

text \<open>
  Claim C2, as amended. \<^verbatim>\<open>run_parallel_agents\<close> submits every research task with
  \<^verbatim>\<open>remove_tools=False\<close>: each research agent runs with the whole tool set of a newly
  created agent, as keys of its \<^verbatim>\<open>tool_mapping\<close> and as schemas offered. It is the
  validation agents, submitted with \<^verbatim>\<open>remove_tools=True\<close>, that run with search and
  calculator only.
\<close>

theorem C2_research_tools:
  "(\<forall>k p i ks ns.
      AgentRun k p i ks ns \<in> set (snd (run_parallel_agents w sched asked images)) \<longrightarrow>
      ks = dict_keys (tool_mapping (create_agent w)) \<and>
      ns = dict_keys (tool_mapping (create_agent w))) \<and>
   (\<forall>k p i ks ns.
      AgentRun k p i ks ns \<in> set (snd (run_validation w sched q d)) \<longrightarrow>
      ks = filter (\<lambda>n. n = ''search'' \<or> n = ''calculator'') (dict_keys (tool_mapping (create_agent w))) \<and>
      ns = filter (\<lambda>n. n = ''search'' \<or> n = ''calculator'') (dict_keys (tool_mapping (create_agent w))))"
proof -
  let ?all = "dict_keys (tool_mapping (create_agent w))"
  let ?two = "filter (\<lambda>n. n = ''search'' \<or> n = ''calculator'') ?all"
  note c = create_agent_consistent [of w]
  have two: "dict_keys (tool_mapping (keep_search_and_calculator (create_agent w))) = ?two"
    "map schema_name (agent_tools (keep_search_and_calculator (create_agent w))) = ?two"
    using keep_search_and_calculator_tools [OF c]
    by (auto simp: create_agent_names intro!: filter_cong)
  let ?R = "\<lambda>ev. \<forall>k p i ks ns. ev = AgentRun k p i ks ns \<longrightarrow> ks = ?all \<and> ns = ?all"
  let ?V = "\<lambda>ev. \<forall>k p i ks ns. ev = AgentRun k p i ks ns \<longrightarrow> ks = ?two \<and> ns = ?two"
  have f: "\<forall>ev\<in>set (snd (run_agent w name x False)). ?R ev" for name x
    using run_agent_events [of w name x False]
    by (auto simp: run_logged_def create_agent_names)
  have t: "\<forall>ev\<in>set (snd (run_agent w name x True)). ?V ev" for name x
    using run_agent_events [of w name x True]
    by (auto simp: run_logged_def two)
  have r: "\<forall>ev\<in>set (snd (run_parallel_agents w sched asked images)). ?R ev"
    by (rule research_events) (simp_all add: f)
  have v: "\<forall>ev\<in>set (snd (run_validation w sched q d)). ?V ev"
    by (rule validation_events) (simp_all add: t)
  from r v show ?thesis by blast
qed

text \<open>Claim C2 as stated fails: the research agent runs with \<^verbatim>\<open>read_file\<close> and
  \<^verbatim>\<open>mark_task_complete\<close> among its tools.\<close>

theorem C2_counterexample:
  "AgentRun ''research'' (JStr ''a'') None
     [''mark_task_complete'', ''search'', ''calculator'', ''read_file'']
     [''mark_task_complete'', ''search'', ''calculator'', ''read_file'']
   \<in> set (snd (run_parallel_agents (demo_world ''openrouter'' 10 (or_done ''R'') gm_down)
              \<lparr>interleaving = [], yield_order = [0, 1, 2, 3]\<rparr>
              (JArr [JStr ''a'', JStr ''b'', JStr ''c'', JStr ''d'']) None))"
  by code_simp

text \<open>The first validator of the example runs with search and calculator.\<close>

theorem C2_witness:
  "AgentRun ''validator_1'' (JStr ''Accuracy. Query: q Draft: d'') None
     [''search'', ''calculator''] [''search'', ''calculator'']
   \<in> set (snd (run_validation (demo_world ''openrouter'' 10 (or_done ''R'') gm_down)
              \<lparr>interleaving = [], yield_order = [0, 1]\<rparr> ''q'' ''d'')) \<and>
   [''search'', ''calculator''] =
   filter (\<lambda>n. n = ''search'' \<or> n = ''calculator'')
     (dict_keys (tool_mapping (create_agent (demo_world ''openrouter'' 10 (or_done ''R'') gm_down))))"
proof -
  let ?w = "demo_world ''openrouter'' 10 (or_done ''R'') gm_down"
  let ?s = "\<lparr>interleaving = [], yield_order = [0, 1]\<rparr>"
  have m: "AgentRun ''validator_1'' (JStr ''Accuracy. Query: q Draft: d'') None
             [''search'', ''calculator''] [''search'', ''calculator'']
          \<in> set (snd (run_validation ?w ?s ''q'' ''d''))"
    by code_simp
  from C2_research_tools [of ?w ?s _ _ "''q''" "''d''", THEN conjunct2, rule_format, OF m]
  have "[''search'', ''calculator''] =
        filter (\<lambda>n. n = ''search'' \<or> n = ''calculator'') (dict_keys (tool_mapping (create_agent ?w)))"
    by blast
  with m show ?thesis by blast
qed

section \<open>The events of a pipeline run; the images argument (claim C10)\<close>

lemma run_agent_logged:
  assumes "\<And>a s r. P (AgentUpdate a s r)" and "\<And>k a p. P (snd (run_logged w k a p None))"
  shows "\<forall>ev\<in>set (snd (run_agent w name x b)). P ev"
  using run_agent_events [of w name x b] assms by auto

lemma generate_questions_events:
  assumes "\<And>s t. P (StageUpdate s t)" and "\<And>a s r. P (AgentUpdate a s r)"
    and "\<And>k a p. P (snd (run_logged w k a p None))"
  shows "\<forall>ev\<in>set (snd (generate_questions w q)). P ev"
  using assms(3) [of "''question_gen''" "remove_tool ''mark_task_complete'' (create_agent w)"]
  by (auto simp: generate_questions_def Let_def case_prod_unfold assms(1,2)
        split: sum.splits)

lemma first_synthesis_events:
  assumes "\<And>s t. P (StageUpdate s t)" and "\<And>a s r. P (AgentUpdate a s r)"
    and "\<And>k a p. P (snd (run_logged w k a p None))"
  shows "\<forall>ev\<in>set (snd (first_synthesis w rs)). P ev"
  using assms(3) [of "''synthesis''" "remove_all_tools (create_agent w)"]
  by (auto simp: first_synthesis_def Let_def assms(1,2) split: sum.splits prod.splits)
     (metis snd_conv)+

lemma final_synthesis_events:
  assumes "\<And>s t. P (StageUpdate s t)" and "\<And>a s r. P (AgentUpdate a s r)"
    and "\<And>k a p. P (snd (run_logged w k a p None))"
  shows "\<forall>ev\<in>set (snd (final_synthesis w q d vs)). P ev"
  using assms(3) [of "''final''" "remove_all_tools (create_agent w)"]
  by (auto simp: final_synthesis_def Let_def assms(1,2) split: sum.splits prod.splits)
     (metis snd_conv)+

lemma emit_events:
  "\<forall>ev\<in>set evs. P ev \<Longrightarrow> \<forall>ev\<in>set (snd m). P ev \<Longrightarrow> \<forall>ev\<in>set (snd (emit evs m)). P ev"
  by (auto simp: emit_def)

lemma and_then_events:
  "\<forall>ev\<in>set (snd m). P ev \<Longrightarrow> (\<And>x. \<forall>ev\<in>set (snd (f x)). P ev) \<Longrightarrow>
   \<forall>ev\<in>set (snd (and_then m f)). P ev"
  by (auto simp: and_then_def split: sum.splits)

lemma orchestrate_events:
  assumes "\<And>s t. P (StageUpdate s t)" and "\<And>a s r. P (AgentUpdate a s r)"
    and "\<And>l. P (StatusCallback l)"
    and "\<And>k a p. P (snd (run_logged w k a p None))"
  shows "\<forall>ev\<in>set (snd (orchestrate w research validation q images cb)). P ev"
proof -
  note a = assms(1,2,4)
  have c: "\<forall>ev\<in>set (callback cb l). P ev" for l by (simp add: callback_def assms(3))
  note g = generate_questions_events [of P w, OF a]
  note r = research_events [of P w, OF assms(1,2) run_agent_logged [of P, OF assms(2,4)]]
  note f = first_synthesis_events [of P w, OF a]
  note v = validation_events [of P w, OF assms(1,2) run_agent_logged [of P, OF assms(2,4)]]
  note l = final_synthesis_events [of P w, OF a]
  show ?thesis
    unfolding orchestrate_def Let_def
    by (intro and_then_events emit_events c g r f v l) simp
qed

lemma run_parallel_agents_images:
  "run_parallel_agents w sched asked images = run_parallel_agents w sched asked images'"
  by (simp add: run_parallel_agents_def)

text \<open>
  Claim C10. \<^verbatim>\<open>orchestrate\<close> does the same whatever its \<^verbatim>\<open>images\<close> argument is:
  the result bundle (or the exception) and the whole sequence of events, with the
  prompt of every run of an agent, are equal for any two values of it; and every run of
  an agent in that sequence is started without images.
\<close>

theorem C10_images_ignored:
  "orchestrate w research validation q images cb = orchestrate w research validation q images' cb \<and>
   list_all passes_no_images (snd (orchestrate w research validation q images cb))"
proof
  show "orchestrate w research validation q images cb =
        orchestrate w research validation q images' cb"
    by (simp only: orchestrate_def run_parallel_agents_def)
  have "\<forall>ev\<in>set (snd (orchestrate w research validation q images cb)). passes_no_images ev"
    by (rule orchestrate_events) (simp_all add: run_logged_def)
  then show "list_all passes_no_images (snd (orchestrate w research validation q images cb))"
    by (simp add: list_all_iff)
qed

section \<open>Histories of the progress store\<close>

lemma concat_single:
  "(\<And>i. i < length xs \<Longrightarrow> i \<noteq> j \<Longrightarrow> xs ! i = []) \<Longrightarrow>
   concat xs = (if j < length xs then xs ! j else [])"
proof (induction xs arbitrary: j)
  case Nil
  then show ?case by simp
next
  case (Cons x xs)
  show ?case
  proof (cases j)
    case 0
    have "concat xs = (if length xs < length xs then xs ! length xs else [])"
      by (rule Cons.IH) (use Cons.prems [of "Suc _"] 0 in auto)
    with 0 show ?thesis by simp
  next
    case (Suc j')
    from Cons.prems [of 0] Suc have x: "x = []" by simp
    have "concat xs = (if j' < length xs then xs ! j' else [])"
      by (rule Cons.IH) (use Cons.prems [of "Suc _"] Suc in auto)
    with x Suc show ?thesis by simp
  qed
qed

lemma interleave_single:
  "(\<And>i. i < length ts \<Longrightarrow> i \<noteq> j \<Longrightarrow> concat (map f (ts ! i)) = []) \<Longrightarrow>
   concat (map f (interleave sched ts)) = (if j < length ts then concat (map f (ts ! j)) else [])"
proof (induction sched arbitrary: ts)
  case Nil
  have "concat (map (\<lambda>t. concat (map f t)) ts) =
        (if j < length (map (\<lambda>t. concat (map f t)) ts)
         then map (\<lambda>t. concat (map f t)) ts ! j else [])"
    by (rule concat_single) (use Nil in \<open>simp del: concat_eq_Nil_conv\<close>)
  moreover have "concat (map f (concat ts)) = concat (map (\<lambda>t. concat (map f t)) ts)"
    by (induction ts) simp_all
  ultimately show ?case by (simp del: concat_eq_Nil_conv)
next
  case (Cons i sched)
  show ?case
  proof (cases "i < length ts")
    case False
    with Cons.IH [OF Cons.prems] show ?thesis by simp
  next
    case True
    show ?thesis
    proof (cases "ts ! i")
      case Nil
      with True Cons.IH [OF Cons.prems] show ?thesis by simp
    next
      case (Cons step rest)
      have p: "concat (map f ((ts[i := rest]) ! i')) = []"
        if "i' < length (ts[i := rest])" "i' \<noteq> j" for i'
      proof (cases "i' = i")
        case True
        with that Cons.prems [of i] Cons show ?thesis by simp
      next
        case False
        with that Cons.prems [of i'] show ?thesis by simp
      qed
      have ih: "concat (map f (interleave sched (ts[i := rest]))) =
            (if j < length (ts[i := rest]) then concat (map f ((ts[i := rest]) ! j)) else [])"
        by (rule Cons.IH) (rule p)
      show ?thesis
      proof (cases "i = j")
        case True
        with ih \<open>i < length ts\<close> Cons show ?thesis by simp
      next
        case False
        with Cons.prems [of i] \<open>i < length ts\<close> Cons have "f step = []" by simp
        with ih False \<open>i < length ts\<close> Cons show ?thesis by simp
      qed
    qed
  qed
qed

lemma rank_simps [simp]:
  "rank ''QUEUED'' = 1" "rank ''IN_PROGRESS'' = 2" "rank ''PROCESSING'' = 2"
  "rank ''COMPLETED'' = 3" "rank ''FAILED'' = 3"
  by (simp_all add: rank_def)

lemma forward_only_Nil [simp]: "forward_only []"
  by (simp add: forward_only_def)

lemma writes_forwardD:
  "writes_forward wr K evs \<Longrightarrow> forward_only (concat (map (wr k) evs))"
  "writes_forward wr K evs \<Longrightarrow> k \<notin> K \<Longrightarrow> concat (map (wr k) evs) = []"
  unfolding writes_forward_def by blast+

lemma writes_forward_append:
  assumes "writes_forward wr K1 xs" and "writes_forward wr K2 ys" and "K1 \<inter> K2 = {}"
  shows "writes_forward wr (K1 \<union> K2) (xs @ ys)"
  unfolding writes_forward_def
proof (intro allI conjI impI)
  fix k
  assume "k \<notin> K1 \<union> K2"
  then have "k \<notin> K1" "k \<notin> K2" by simp_all
  from writes_forwardD(2) [OF assms(1) this(1)] writes_forwardD(2) [OF assms(2) this(2)]
  have "concat (map (wr k) xs) @ concat (map (wr k) ys) = []" by (simp only: append_Nil)
  then show "concat (map (wr k) (xs @ ys)) = []" by (simp only: map_append concat_append)
next
  fix k
  show "forward_only (concat (map (wr k) (xs @ ys)))"
  proof (cases "k \<in> K1")
    case True
    with assms(3) have "k \<notin> K2" by blast
    from writes_forwardD(2) [OF assms(2) this]
    have "concat (map (wr k) (xs @ ys)) = concat (map (wr k) xs)"
      by (simp only: map_append concat_append append_Nil2)
    with writes_forwardD(1) [OF assms(1), of k] show ?thesis by (simp only:)
  next
    case False
    from writes_forwardD(2) [OF assms(1) this]
    have "concat (map (wr k) (xs @ ys)) = concat (map (wr k) ys)"
      by (simp only: map_append concat_append append_Nil)
    with writes_forwardD(1) [OF assms(2), of k] show ?thesis by (simp only:)
  qed
qed

lemma writes_forward_nothing:
  assumes "\<And>k ev. ev \<in> set evs \<Longrightarrow> wr k ev = []"
  shows "writes_forward wr {} evs"
proof -
  have "concat (map (wr k) evs) = []" for k using assms by simp
  then show ?thesis unfolding writes_forward_def by (simp only: forward_only_Nil) simp
qed

lemma writes_forward_emit:
  "writes_forward wr {} evs \<Longrightarrow> writes_forward wr K (snd m) \<Longrightarrow>
   writes_forward wr K (snd (emit evs m))"
  using writes_forward_append [of wr "{}" evs K "snd m"] by (simp add: emit_def)

lemma writes_forward_and_then:
  assumes "writes_forward wr K1 (snd m)" and "\<And>x. writes_forward wr K2 (snd (f x))"
    and "K1 \<inter> K2 = {}"
  shows "writes_forward wr (K1 \<union> K2) (snd (and_then m f))"
proof (cases "fst m")
  case (Inl e)
  have "writes_forward wr (K1 \<union> K2) (snd m @ [])"
    by (rule writes_forward_append [OF assms(1) _ assms(3)])
       (simp add: writes_forward_def)
  with Inl show ?thesis by (simp add: and_then_def)
next
  case (Inr x)
  from writes_forward_append [OF assms(1) assms(2) [of x] assms(3)] Inr
  show ?thesis by (simp add: and_then_def)
qed

text \<open>The stages that run in the calling thread write at their own two keys, first the
  status in progress and then completed or failed.\<close>

lemma run_logged_writes [simp]:
  "stage_write k (snd (run_logged w key a p i)) = []"
  "agent_write k (snd (run_logged w key a p i)) = []"
  by (simp_all add: run_logged_def)

lemma generate_questions_stage:
  "writes_forward stage_write {''question_generation''} (snd (generate_questions w q))"
  by (auto simp: writes_forward_def forward_only_def generate_questions_def Let_def
        case_prod_unfold split: sum.splits simp del: concat_eq_Nil_conv)

lemma generate_questions_agent:
  "writes_forward agent_write {''question_gen''} (snd (generate_questions w q))"
  by (auto simp: writes_forward_def forward_only_def generate_questions_def Let_def
        case_prod_unfold split: sum.splits simp del: concat_eq_Nil_conv)

lemma first_synthesis_stage:
  "writes_forward stage_write {''first_synthesis''} (snd (first_synthesis w rs))"
  by (auto simp: writes_forward_def forward_only_def first_synthesis_def Let_def
        case_prod_unfold split: sum.splits simp del: concat_eq_Nil_conv)

lemma first_synthesis_agent:
  "writes_forward agent_write {''synthesis''} (snd (first_synthesis w rs))"
  by (auto simp: writes_forward_def forward_only_def first_synthesis_def Let_def
        case_prod_unfold split: sum.splits simp del: concat_eq_Nil_conv)

lemma final_synthesis_stage:
  "writes_forward stage_write {''final_synthesis''} (snd (final_synthesis w q d vs))"
  by (auto simp: writes_forward_def forward_only_def final_synthesis_def Let_def
        case_prod_unfold split: sum.splits simp del: concat_eq_Nil_conv)

lemma final_synthesis_agent:
  "writes_forward agent_write {''final''} (snd (final_synthesis w q d vs))"
  by (auto simp: writes_forward_def forward_only_def final_synthesis_def Let_def
        case_prod_unfold split: sum.splits simp del: concat_eq_Nil_conv)

lemma callback_writes:
  "writes_forward stage_write {} (callback cb l)" "writes_forward agent_write {} (callback cb l)"
  by (rule writes_forward_nothing; simp add: callback_def)+

text \<open>A worker thread writes at the key of its agent only; the threads of a fan-out stage
  have distinct keys, queued by the calling thread before any of them starts, so that
  however the threads interleave each key sees queued, processing, completed or failed.\<close>

lemma run_agent_stage_write:
  "ev \<in> set (snd (run_agent w aid p b)) \<Longrightarrow> stage_write k ev = []"
  using run_agent_events [of w aid p b] by auto

lemma run_agent_other_key:
  "aid \<noteq> k \<Longrightarrow> concat (map (agent_write k) (snd (run_agent w aid p b))) = []"
  by (simp add: run_agent_def Let_def case_prod_unfold split: sum.splits)

lemma run_agent_own_key:
  "concat (map (agent_write aid) (snd (run_agent w aid p b))) = [''PROCESSING'', ''COMPLETED''] \<or>
   concat (map (agent_write aid) (snd (run_agent w aid p b))) = [''PROCESSING'', ''FAILED'']"
  by (simp add: run_agent_def Let_def case_prod_unfold split: sum.splits)

lemma queued_history:
  "distinct names \<Longrightarrow>
   concat (map (agent_write k) (map (\<lambda>n. AgentUpdate n ''QUEUED'' None) names)) =
     (if k \<in> set names then [''QUEUED''] else [])"
  by (induction names) auto

lemma fan_out_agent_history:
  assumes d: "distinct names" and l: "length ts \<le> length names"
    and other: "\<And>i k. i < length ts \<Longrightarrow> names ! i \<noteq> k \<Longrightarrow> concat (map (agent_write k) (ts ! i)) = []"
    and own: "\<And>i. i < length ts \<Longrightarrow>
        concat (map (agent_write (names ! i)) (ts ! i)) = [''PROCESSING'', ''COMPLETED''] \<or>
        concat (map (agent_write (names ! i)) (ts ! i)) = [''PROCESSING'', ''FAILED'']"
  shows "writes_forward agent_write (set names)
           (map (\<lambda>n. AgentUpdate n ''QUEUED'' None) names @ interleave sched ts)"
  unfolding writes_forward_def
proof (intro allI)
  fix k
  let ?q = "concat (map (agent_write k) (map (\<lambda>n. AgentUpdate n ''QUEUED'' None) names))"
  let ?i = "concat (map (agent_write k) (interleave sched ts))"
  have h: "concat (map (agent_write k)
             (map (\<lambda>n. AgentUpdate n ''QUEUED'' None) names @ interleave sched ts)) = ?q @ ?i"
    by (simp only: map_append concat_append)
  have "(k \<notin> set names \<longrightarrow> ?q @ ?i = []) \<and> forward_only (?q @ ?i)"
  proof (cases "k \<in> set names")
    case False
    then have o: "concat (map (agent_write k) (ts ! i)) = []" if "i < length ts" for i
      using other [OF that, of k] that l by (metis nth_mem order_less_le_trans)
    have "?i = (if length ts < length ts then concat (map (agent_write k) (ts ! length ts)) else [])"
      by (rule interleave_single) (rule o)
    then have "?i = []" by (simp only: less_irrefl if_False)
    moreover from False have "?q = []" by (simp only: queued_history [OF d] if_False)
    ultimately show ?thesis using False by (simp only: append_Nil forward_only_Nil) simp
  next
    case True
    then obtain j where j: "j < length names" "names ! j = k" by (auto simp: in_set_conv_nth)
    have o: "concat (map (agent_write k) (ts ! i)) = []" if "i < length ts" "i \<noteq> j" for i
    proof (rule other [OF that(1)])
      from that(1) l have "i < length names" by simp
      with d j(1) that(2) have "names ! i \<noteq> names ! j" by (simp add: nth_eq_iff_index_eq)
      with j(2) show "names ! i \<noteq> k" by simp
    qed
    have i: "?i = (if j < length ts then concat (map (agent_write k) (ts ! j)) else [])"
      by (rule interleave_single) (rule o)
    from True have q: "?q = [''QUEUED'']" by (simp only: queued_history [OF d] if_True)
    have "forward_only ([''QUEUED''] @ ?i)"
    proof (cases "j < length ts")
      case False
      with i have e: "?i = []" by (simp only: if_False)
      show ?thesis unfolding e by (simp add: forward_only_def)
    next
      case True
      with i have e: "?i = concat (map (agent_write (names ! j)) (ts ! j))"
        using j(2) by (simp only: if_True)
      from own [OF True] show ?thesis unfolding e
        by (rule disjE) (simp_all only: forward_only_def, simp_all)
    qed
    with q True show ?thesis by (simp only:) simp
  qed
  then show "(k \<notin> set names \<longrightarrow>
         concat (map (agent_write k)
           (map (\<lambda>n. AgentUpdate n ''QUEUED'' None) names @ interleave sched ts)) = []) \<and>
       forward_only (concat (map (agent_write k)
           (map (\<lambda>n. AgentUpdate n ''QUEUED'' None) names @ interleave sched ts)))"
    unfolding h .
qed

lemma interleave_no_threads [simp]: "interleave sched [] = []"
  by (induction sched) simp_all

lemma fan_out_writes:
  assumes evs: "evs = StageUpdate key ''IN_PROGRESS'' #
                  (map (\<lambda>n. AgentUpdate n ''QUEUED'' None) names @ interleave sched ts) @ tail"
    and tail: "tail = [] \<or> tail = [StageUpdate key ''COMPLETED'']"
    and d: "distinct names" and l: "length ts \<le> length names"
    and ts: "\<And>i. i < length ts \<Longrightarrow> \<exists>p b. ts ! i = snd (run_agent w (names ! i) p b)"
  shows "writes_forward agent_write (set names) evs"
    and "writes_forward stage_write {key} evs"
proof -
  let ?mid = "map (\<lambda>n. AgentUpdate n ''QUEUED'' None) names @ interleave sched ts"
  have m: "writes_forward agent_write (set names) ?mid"
  proof (rule fan_out_agent_history [OF d l])
    fix i k
    assume a: "i < length ts" and n: "names ! i \<noteq> k"
    from ts [OF a] obtain p b where e: "ts ! i = snd (run_agent w (names ! i) p b)" by blast
    show "concat (map (agent_write k) (ts ! i)) = []"
      unfolding e using n by (rule run_agent_other_key)
  next
    fix i
    assume a: "i < length ts"
    from ts [OF a] obtain p b where e: "ts ! i = snd (run_agent w (names ! i) p b)" by blast
    show "concat (map (agent_write (names ! i)) (ts ! i)) = [''PROCESSING'', ''COMPLETED''] \<or>
          concat (map (agent_write (names ! i)) (ts ! i)) = [''PROCESSING'', ''FAILED'']"
      unfolding e by (rule run_agent_own_key)
  qed
  have h: "writes_forward agent_write {} [StageUpdate key ''IN_PROGRESS'']"
    by (rule writes_forward_nothing) simp
  have t: "writes_forward agent_write {} tail"
    by (rule writes_forward_nothing) (use tail in auto)
  from writes_forward_append [OF m t] have "writes_forward agent_write (set names) (?mid @ tail)"
    by simp
  from writes_forward_append [OF h this] show "writes_forward agent_write (set names) evs"
    by (simp add: evs)
  have s: "stage_write k ev = []" if "ev \<in> set ?mid" for k ev
  proof -
    from that consider "ev \<in> set (map (\<lambda>n. AgentUpdate n ''QUEUED'' None) names)"
      | "ev \<in> set (interleave sched ts)" by auto
    then show ?thesis
    proof cases
      case 1
      then show ?thesis by auto
    next
      case 2
      with interleave_subset [of sched ts] obtain t where "t \<in> set ts" "ev \<in> set t" by blast
      then obtain i where "i < length ts" "ev \<in> set (ts ! i)" by (auto simp: in_set_conv_nth)
      with ts [of i] show ?thesis by (auto simp: run_agent_stage_write)
    qed
  qed
  then have z: "concat (map (stage_write k) ?mid) = []" for k by simp
  show "writes_forward stage_write {key} evs"
    unfolding writes_forward_def
  proof (intro allI)
    fix k
    have "concat (map (stage_write k) evs) =
            stage_write k (StageUpdate key ''IN_PROGRESS'') @ concat (map (stage_write k) ?mid) @
            concat (map (stage_write k) tail)"
      unfolding evs by simp
    then have e: "concat (map (stage_write k) evs) =
            stage_write k (StageUpdate key ''IN_PROGRESS'') @ concat (map (stage_write k) tail)"
      unfolding z by simp
    show "(k \<notin> {key} \<longrightarrow> concat (map (stage_write k) evs) = []) \<and>
          forward_only (concat (map (stage_write k) evs))"
      unfolding e using tail by (auto simp: forward_only_def)
  qed
qed

lemma research_trace:
  "\<exists>ts tail. snd (run_parallel_agents w sched asked images) =
       StageUpdate ''parallel_research'' ''IN_PROGRESS'' #
         (map (\<lambda>n. AgentUpdate n ''QUEUED'' None) agent_names @
          interleave (interleaving sched) ts) @ tail \<and>
     (tail = [] \<or> tail = [StageUpdate ''parallel_research'' ''COMPLETED'']) \<and>
     length ts \<le> length agent_names \<and>
     (\<forall>i<length ts. \<exists>p b. ts ! i = snd (run_agent w (agent_names ! i) p b))"
proof (cases "py_iter asked")
  case (Inl e)
  then show ?thesis
    by (intro exI [of _ "[]"]) (simp add: run_parallel_agents_def)
next
  case (Inr qs)
  let ?ts = "map (\<lambda>(name, r, evs). evs)
               (map (\<lambda>(name, question). (name, run_agent w name question False))
                  (zip agent_names qs))"
  have n: "\<forall>i<length ?ts. \<exists>p b. ?ts ! i = snd (run_agent w (agent_names ! i) p b)"
    by (auto simp: case_prod_unfold)
  have l: "length ?ts \<le> length agent_names" by simp
  show ?thesis
  proof (cases "snd (as_completed
             (map (\<lambda>(name, r, evs). (name, Inr r :: error + agent_result))
               (map (\<lambda>(name, question). (name, run_agent w name question False))
                  (zip agent_names qs)))
             (yield_order sched))")
    case True
    with Inr have "snd (run_parallel_agents w sched asked images) =
       StageUpdate ''parallel_research'' ''IN_PROGRESS'' #
         (map (\<lambda>n. AgentUpdate n ''QUEUED'' None) agent_names @
          interleave (interleaving sched) ?ts) @ []"
      by (simp add: run_parallel_agents_def Let_def case_prod_unfold)
    with n l show ?thesis by blast
  next
    case False
    with Inr have "snd (run_parallel_agents w sched asked images) =
       StageUpdate ''parallel_research'' ''IN_PROGRESS'' #
         (map (\<lambda>n. AgentUpdate n ''QUEUED'' None) agent_names @
          interleave (interleaving sched) ?ts) @ [StageUpdate ''parallel_research'' ''COMPLETED'']"
      by (simp add: run_parallel_agents_def Let_def case_prod_unfold)
    with n l show ?thesis by blast
  qed
qed

lemma validation_trace:
  "\<exists>ts tail. snd (run_validation w sched q d) =
       StageUpdate ''validation'' ''IN_PROGRESS'' #
         (map (\<lambda>n. AgentUpdate n ''QUEUED'' None) [''validator_1'', ''validator_2''] @
          interleave (interleaving sched) ts) @ tail \<and>
     (tail = [] \<or> tail = [StageUpdate ''validation'' ''COMPLETED'']) \<and>
     length ts \<le> length [''validator_1'', ''validator_2''] \<and>
     (\<forall>i<length ts. \<exists>p b. ts ! i = snd (run_agent w ([''validator_1'', ''validator_2''] ! i) p b))"
proof -
  let ?kw = "[(''original_query'', q), (''draft_answer'', d)]"
  consider e where "format_template (validation_prompt_1 (prompts w)) ?kw = Inl e"
    | p1 e where "format_template (validation_prompt_1 (prompts w)) ?kw = Inr p1"
        "format_template (validation_prompt_2 (prompts w)) ?kw = Inl e"
    | p1 p2 where "format_template (validation_prompt_1 (prompts w)) ?kw = Inr p1"
        "format_template (validation_prompt_2 (prompts w)) ?kw = Inr p2"
    by (metis sum.exhaust)
  then show ?thesis
  proof cases
    case 1
    then show ?thesis by (intro exI [of _ "[]"]) (simp add: run_validation_def)
  next
    case 2
    then show ?thesis by (intro exI [of _ "[]"]) (simp add: run_validation_def)
  next
    case 3
    let ?ts = "[snd (run_agent w ''validator_1'' (JStr p1) True),
                snd (run_agent w ''validator_2'' (JStr p2) True)]"
    have n: "\<forall>i<length ?ts. \<exists>p b. ?ts ! i = snd (run_agent w ([''validator_1'', ''validator_2''] ! i) p b)"
      by (auto simp: less_Suc_eq)
    have l: "length ?ts \<le> length [''validator_1'', ''validator_2'']" by simp
    show ?thesis
    proof (cases "snd (as_completed
               [Inr (fst (run_agent w ''validator_1'' (JStr p1) True)) :: error + agent_result,
                Inr (fst (run_agent w ''validator_2'' (JStr p2) True))]
               (yield_order sched))")
      case True
      with 3 have "snd (run_validation w sched q d) =
         StageUpdate ''validation'' ''IN_PROGRESS'' #
           (map (\<lambda>n. AgentUpdate n ''QUEUED'' None) [''validator_1'', ''validator_2''] @
            interleave (interleaving sched) ?ts) @ []"
        by (simp add: run_validation_def Let_def case_prod_unfold)
      with n l show ?thesis by blast
    next
      case False
      with 3 have "snd (run_validation w sched q d) =
         StageUpdate ''validation'' ''IN_PROGRESS'' #
           (map (\<lambda>n. AgentUpdate n ''QUEUED'' None) [''validator_1'', ''validator_2''] @
            interleave (interleaving sched) ?ts) @ [StageUpdate ''validation'' ''COMPLETED'']"
        by (simp add: run_validation_def Let_def case_prod_unfold)
      with n l show ?thesis by blast
    qed
  qed
qed

lemma research_writes:
  "writes_forward agent_write (set agent_names) (snd (run_parallel_agents w sched asked images))"
  "writes_forward stage_write {''parallel_research''} (snd (run_parallel_agents w sched asked images))"
proof -
  from research_trace [of w sched asked images] obtain ts tail where
    t: "snd (run_parallel_agents w sched asked images) =
       StageUpdate ''parallel_research'' ''IN_PROGRESS'' #
         (map (\<lambda>n. AgentUpdate n ''QUEUED'' None) agent_names @
          interleave (interleaving sched) ts) @ tail"
     "tail = [] \<or> tail = [StageUpdate ''parallel_research'' ''COMPLETED'']"
     "length ts \<le> length agent_names"
     "\<forall>i<length ts. \<exists>p b. ts ! i = snd (run_agent w (agent_names ! i) p b)"
    by blast
  have d: "distinct agent_names" by (simp add: agent_names_def)
  from t(4) have n: "\<And>i. i < length ts \<Longrightarrow> \<exists>p b. ts ! i = snd (run_agent w (agent_names ! i) p b)"
    by blast
  show "writes_forward agent_write (set agent_names) (snd (run_parallel_agents w sched asked images))"
    by (rule fan_out_writes(1) [OF t(1) t(2) d t(3) n])
  show "writes_forward stage_write {''parallel_research''} (snd (run_parallel_agents w sched asked images))"
    by (rule fan_out_writes(2) [OF t(1) t(2) d t(3) n])
qed

lemma validation_writes:
  "writes_forward agent_write {''validator_1'', ''validator_2''} (snd (run_validation w sched q d))"
  "writes_forward stage_write {''validation''} (snd (run_validation w sched q d))"
proof -
  let ?names = "[''validator_1'', ''validator_2'']"
  from validation_trace [of w sched q d] obtain ts tail where
    t: "snd (run_validation w sched q d) =
       StageUpdate ''validation'' ''IN_PROGRESS'' #
         (map (\<lambda>n. AgentUpdate n ''QUEUED'' None) ?names @
          interleave (interleaving sched) ts) @ tail"
     "tail = [] \<or> tail = [StageUpdate ''validation'' ''COMPLETED'']"
     "length ts \<le> length ?names"
     "\<forall>i<length ts. \<exists>p b. ts ! i = snd (run_agent w (?names ! i) p b)"
    by blast
  have d: "distinct ?names" by simp
  from t(4) have n: "\<And>i. i < length ts \<Longrightarrow> \<exists>p b. ts ! i = snd (run_agent w (?names ! i) p b)"
    by blast
  have "writes_forward agent_write (set ?names) (snd (run_validation w sched q d))"
    by (rule fan_out_writes(1) [OF t(1) t(2) d t(3) n])
  then show "writes_forward agent_write {''validator_1'', ''validator_2''} (snd (run_validation w sched q d))"
    by simp
  show "writes_forward stage_write {''validation''} (snd (run_validation w sched q d))"
    by (rule fan_out_writes(2) [OF t(1) t(2) d t(3) n])
qed

section \<open>The statuses of a pipeline run (claim C8)\<close>

text \<open>The pipeline writes at five stage keys and nine agent keys, each stage at its own.\<close>

lemma orchestrate_stage_writes:
  "writes_forward stage_write
     ({''question_generation''} \<union> ({''parallel_research''} \<union> ({''first_synthesis''} \<union>
        ({''validation''} \<union> ({''final_synthesis''} \<union> {})))))
     (snd (orchestrate w research validation q images cb))"
  unfolding orchestrate_def Let_def
  by (intro writes_forward_and_then writes_forward_emit callback_writes
        generate_questions_stage research_writes first_synthesis_stage validation_writes
        final_synthesis_stage)
     (simp_all add: writes_forward_def)

lemma orchestrate_agent_writes:
  "writes_forward agent_write
     ({''question_gen''} \<union> (set agent_names \<union> ({''synthesis''} \<union>
        ({''validator_1'', ''validator_2''} \<union> ({''final''} \<union> {})))))
     (snd (orchestrate w research validation q images cb))"
  unfolding orchestrate_def Let_def
  by (intro writes_forward_and_then writes_forward_emit callback_writes
        generate_questions_agent research_writes first_synthesis_agent validation_writes
        final_synthesis_agent)
     (simp_all add: writes_forward_def agent_names_def)

lemma map_of_dict_set:
  "map_of (dict_set k v d) k' = (if k' = k then Some v else map_of d k')"
  by (induction d) auto

lemma replay_stage:
  "map_of (stage_progress (foldl apply_event p evs)) k =
     (if stage_history k evs = [] then map_of (stage_progress p) k
      else Some (last (stage_history k evs)))"
proof (induction evs arbitrary: p)
  case Nil
  then show ?case by (simp add: stage_history_def)
next
  case (Cons ev evs)
  show ?case
    by (cases ev)
       (simp_all add: Cons.IH stage_history_def update_stage_def update_agent_progress_def
          map_of_dict_set del: concat_eq_Nil_conv)
qed

lemma replay_agent:
  "map_option fst (map_of (agent_progress (foldl apply_event p evs)) k) =
     (if agent_history k evs = [] then map_option fst (map_of (agent_progress p) k)
      else Some (last (agent_history k evs)))"
proof (induction evs arbitrary: p)
  case Nil
  then show ?case by (simp add: agent_history_def)
next
  case (Cons ev evs)
  show ?case
    by (cases ev)
       (simp_all add: Cons.IH agent_history_def update_stage_def update_agent_progress_def
          map_of_dict_set del: concat_eq_Nil_conv)
qed

lemma status_last:
  "stage_status k evs =
     (if stage_history k evs = [] then None else Some (last (stage_history k evs)))"
  "agent_status k evs =
     (if agent_history k evs = [] then None else Some (last (agent_history k evs)))"
  by (simp_all add: stage_status_def agent_status_def replay_def replay_stage replay_agent)

lemma rank_le: "rank s \<le> 3"
  by (simp add: rank_def)

lemma forward_last:
  assumes "forward_only (xs @ ys @ zs)" and "xs \<noteq> []"
  shows "last (xs @ ys) = last xs \<or> rank (last xs) < rank (last (xs @ ys))"
proof (cases "ys = []")
  case True
  then show ?thesis by simp
next
  case False
  from assms(2) have "last xs \<in> set xs" by simp
  moreover from False have "last ys \<in> set ys" by simp
  ultimately have "rank (last xs) < rank (last ys)"
    using assms(1) by (auto simp: forward_only_def sorted_wrt_append)
  with False show ?thesis by simp
qed

lemma history_monotonic:
  assumes f: "forward_only (concat (map wr evs))" and ij: "i \<le> j"
    and i: "concat (map wr (take i evs)) \<noteq> []"
  shows "concat (map wr (take j evs)) \<noteq> [] \<and>
     (last (concat (map wr (take j evs))) = last (concat (map wr (take i evs))) \<or>
      rank (last (concat (map wr (take i evs)))) < rank (last (concat (map wr (take j evs)))))"
proof -
  let ?h = "\<lambda>xs. concat (map wr xs)"
  have a: "take j evs = take i evs @ drop i (take j evs)"
    using ij by (metis append_take_drop_id min.absorb1 take_take)
  have b: "evs = take j evs @ drop j evs" by simp
  have "?h evs = ?h (take i evs) @ ?h (drop i (take j evs)) @ ?h (drop j evs)"
    by (subst b, subst a) (simp only: map_append concat_append append_assoc)
  with f have "forward_only (?h (take i evs) @ ?h (drop i (take j evs)) @ ?h (drop j evs))"
    by (simp only:)
  from forward_last [OF this i]
  have "last (?h (take i evs) @ ?h (drop i (take j evs))) = last (?h (take i evs)) \<or>
        rank (last (?h (take i evs))) < rank (last (?h (take i evs) @ ?h (drop i (take j evs))))" .
  moreover have c: "?h (take j evs) = ?h (take i evs) @ ?h (drop i (take j evs))"
    by (subst a) (simp only: map_append concat_append)
  moreover from i have "?h (take i evs) @ ?h (drop i (take j evs)) \<noteq> []"
    by (simp only: append_is_Nil_conv) simp
  ultimately show ?thesis by (simp only:) simp
qed

lemma status_monotonic:
  assumes "forward_only (stage_history k evs)" and "i \<le> j"
    and "stage_status k (take i evs) = Some s"
  shows "\<exists>s'. stage_status k (take j evs) = Some s' \<and> (s' = s \<or> rank s < rank s')"
proof -
  from assms(3) have n: "stage_history k (take i evs) \<noteq> []" and s: "s = last (stage_history k (take i evs))"
    by (auto simp: status_last(1) split: if_splits)
  from assms(1) have f: "forward_only (concat (map (stage_write k) evs))"
    unfolding stage_history_def .
  from n have n': "concat (map (stage_write k) (take i evs)) \<noteq> []"
    unfolding stage_history_def .
  have "stage_history k (take j evs) \<noteq> [] \<and>
     (last (stage_history k (take j evs)) = last (stage_history k (take i evs)) \<or>
      rank (last (stage_history k (take i evs))) < rank (last (stage_history k (take j evs))))"
    unfolding stage_history_def by (rule history_monotonic [OF f assms(2) n'])
  with s show ?thesis by (simp add: status_last(1))
qed

lemma agent_status_monotonic:
  assumes "forward_only (agent_history k evs)" and "i \<le> j"
    and "agent_status k (take i evs) = Some s"
  shows "\<exists>s'. agent_status k (take j evs) = Some s' \<and> (s' = s \<or> rank s < rank s')"
proof -
  from assms(3) have n: "agent_history k (take i evs) \<noteq> []" and s: "s = last (agent_history k (take i evs))"
    by (auto simp: status_last(2) split: if_splits)
  from assms(1) have f: "forward_only (concat (map (agent_write k) evs))"
    unfolding agent_history_def .
  from n have n': "concat (map (agent_write k) (take i evs)) \<noteq> []"
    unfolding agent_history_def .
  have "agent_history k (take j evs) \<noteq> [] \<and>
     (last (agent_history k (take j evs)) = last (agent_history k (take i evs)) \<or>
      rank (last (agent_history k (take i evs))) < rank (last (agent_history k (take j evs))))"
    unfolding agent_history_def by (rule history_monotonic [OF f assms(2) n'])
  with s show ?thesis by (simp add: status_last(2))
qed

lemma completed_stays:
  "s' = ''COMPLETED'' \<or> rank ''COMPLETED'' < rank s' \<Longrightarrow> s' = ''COMPLETED''"
  using rank_le [of s'] by auto

text \<open>
  Claim C8. In a run of \<^verbatim>\<open>orchestrate\<close>, which starts from an empty progress store, the
  statuses written at any one key of the stage level or of the agent level move forward
  only in the chain queued, in progress (processing), completed or failed, each write
  further than the one before: for every interleaving of the worker threads, and also
  when a stage raises or times out. Hence, of two moments of the run, the status that the
  store holds for a key at the later one is the status it held at the earlier one or one
  further in the chain; a key that has a status keeps one; and a status recorded as
  completed is still completed at every later moment.
\<close>

theorem C8_status_monotonic:
  "forward_only (stage_history k (snd (orchestrate w research validation q images cb))) \<and>
   forward_only (agent_history k (snd (orchestrate w research validation q images cb))) \<and>
   (i \<le> j \<and> stage_status k (take i (snd (orchestrate w research validation q images cb))) = Some s \<longrightarrow>
      (\<exists>s'. stage_status k (take j (snd (orchestrate w research validation q images cb))) = Some s' \<and>
            (s' = s \<or> rank s < rank s') \<and> (s = ''COMPLETED'' \<longrightarrow> s' = ''COMPLETED''))) \<and>
   (i \<le> j \<and> agent_status k (take i (snd (orchestrate w research validation q images cb))) = Some s \<longrightarrow>
      (\<exists>s'. agent_status k (take j (snd (orchestrate w research validation q images cb))) = Some s' \<and>
            (s' = s \<or> rank s < rank s') \<and> (s = ''COMPLETED'' \<longrightarrow> s' = ''COMPLETED'')))"
proof -
  let ?evs = "snd (orchestrate w research validation q images cb)"
  have f: "forward_only (stage_history k ?evs)"
    unfolding stage_history_def by (rule writes_forwardD(1) [OF orchestrate_stage_writes])
  have g: "forward_only (agent_history k ?evs)"
    unfolding agent_history_def by (rule writes_forwardD(1) [OF orchestrate_agent_writes])
  have a: "\<exists>s'. stage_status k (take j ?evs) = Some s' \<and>
            (s' = s \<or> rank s < rank s') \<and> (s = ''COMPLETED'' \<longrightarrow> s' = ''COMPLETED'')"
    if "i \<le> j" "stage_status k (take i ?evs) = Some s"
    using status_monotonic [OF f that] completed_stays by blast
  have b: "\<exists>s'. agent_status k (take j ?evs) = Some s' \<and>
            (s' = s \<or> rank s < rank s') \<and> (s = ''COMPLETED'' \<longrightarrow> s' = ''COMPLETED'')"
    if "i \<le> j" "agent_status k (take i ?evs) = Some s"
    using agent_status_monotonic [OF g that] completed_stays by blast
  from f g a b show ?thesis by blast
qed

text \<open>The agent \<^verbatim>\<open>research\<close> in a run with interleaved workers: queued after seven
  events, completed when the research stage has ended.\<close>

theorem C8_witness:
  "(7 \<le> (23::nat) \<and>
    agent_status ''research''
      (take 7 (snd (orchestrate (demo_world ''openrouter'' 10 (or_done four_strings) gm_down)
         \<lparr>interleaving = [3, 0, 0, 1], yield_order = [2, 0, 3, 1]\<rparr>
         \<lparr>interleaving = [1], yield_order = [1, 0]\<rparr> ''q'' None False))) = Some ''QUEUED'') \<and>
   agent_status ''research''
      (take 23 (snd (orchestrate (demo_world ''openrouter'' 10 (or_done four_strings) gm_down)
         \<lparr>interleaving = [3, 0, 0, 1], yield_order = [2, 0, 3, 1]\<rparr>
         \<lparr>interleaving = [1], yield_order = [1, 0]\<rparr> ''q'' None False))) = Some ''COMPLETED'' \<and>
   (\<exists>s'. agent_status ''research''
      (take 23 (snd (orchestrate (demo_world ''openrouter'' 10 (or_done four_strings) gm_down)
         \<lparr>interleaving = [3, 0, 0, 1], yield_order = [2, 0, 3, 1]\<rparr>
         \<lparr>interleaving = [1], yield_order = [1, 0]\<rparr> ''q'' None False))) = Some s' \<and>
      (s' = ''QUEUED'' \<or> rank ''QUEUED'' < rank s'))"
proof -
  let ?evs = "snd (orchestrate (demo_world ''openrouter'' 10 (or_done four_strings) gm_down)
         \<lparr>interleaving = [3, 0, 0, 1], yield_order = [2, 0, 3, 1]\<rparr>
         \<lparr>interleaving = [1], yield_order = [1, 0]\<rparr> ''q'' None False)"
  have h1: "7 \<le> (23::nat)" by simp
  have h2: "agent_status ''research'' (take 7 ?evs) = Some ''QUEUED''" by code_simp
  have h3: "agent_status ''research'' (take 23 ?evs) = Some ''COMPLETED''" by code_simp
  from C8_status_monotonic [of "''research''" "demo_world ''openrouter'' 10 (or_done four_strings) gm_down"
      "\<lparr>interleaving = [3, 0, 0, 1], yield_order = [2, 0, 3, 1]\<rparr>"
      "\<lparr>interleaving = [1], yield_order = [1, 0]\<rparr>" "''q''" None False 7 23 "''QUEUED''"] h1 h2
  have "\<exists>s'. agent_status ''research'' (take 23 ?evs) = Some s' \<and>
      (s' = ''QUEUED'' \<or> rank ''QUEUED'' < rank s')" by blast
  with h1 h2 h3 show ?thesis by blast
qed

end
